theory Spec2Isabelle
  imports Main "HOL-Library.Sublist"
begin

section \<open>The ToolEvents component (in src/frontend/src/components/SuggestedQuestions.tsx)\<close>

text \<open>
  A \<open>ToolEvent\<close> as the component reads it: \<open>ev.tool\<close>, \<open>ev.status\<close>, \<open>ev.timestamp\<close>
  and the optional \<open>ev.message\<close>. The status is compared with string literals in the
  source, so it is a string here too.
\<close>

record tool_event =
  tool :: string
  status :: string
  timestamp :: string
  message :: "string option"

subsection \<open>latestByTool: a JavaScript Map keyed by tool name\<close>

text \<open>
  A JavaScript \<open>Map\<close> iterates in insertion order. \<open>map.set(k, v)\<close> on a key that is
  already present replaces the value and leaves the key where it is; on a new key it
  appends the entry. An association list in insertion order models that.
\<close>

fun map_set :: "('k \<times> 'v) list \<Rightarrow> 'k \<Rightarrow> 'v \<Rightarrow> ('k \<times> 'v) list" where
  "map_set [] k v = [(k, v)]"
| "map_set ((k', v') # m) k v =
     (if k' = k then (k, v) # m else (k', v') # map_set m k v)"

text \<open>
  \<^verbatim>\<open>const map = new Map<string, ToolEvent>();
events.forEach((ev) => map.set(ev.tool, ev));
return Array.from(map.values());\<close>
\<close>

definition latestByTool :: "tool_event list \<Rightarrow> tool_event list" where
  "latestByTool events = map snd (foldl (\<lambda>m ev. map_set m (tool ev) ev) [] events)"

subsection \<open>sorted: running tools first\<close>

text \<open>
  The comparator handed to \<open>Array.prototype.sort\<close>:
  \<^verbatim>\<open>if (a.status === "started" && b.status !== "started") return -1;
if (a.status !== "started" && b.status === "started") return 1;
return 0;\<close>
\<close>

definition running_first :: "tool_event \<Rightarrow> tool_event \<Rightarrow> int" where
  "running_first a b =
     (if status a = ''started'' \<and> status b \<noteq> ''started'' then - 1
      else if status a \<noteq> ''started'' \<and> status b = ''started'' then 1
      else 0)"

text \<open>
  \<open>Array.prototype.sort\<close> is a stable sort (ECMAScript 2019): elements the comparator
  calls equal keep their order. Insertion from the right, placing an element before the
  first one it does not come after, is such a sort.
\<close>

fun insert_by :: "('a \<Rightarrow> 'a \<Rightarrow> int) \<Rightarrow> 'a \<Rightarrow> 'a list \<Rightarrow> 'a list" where
  "insert_by c x [] = [x]"
| "insert_by c x (y # ys) = (if c x y \<le> 0 then x # y # ys else y # insert_by c x ys)"

definition js_sort :: "('a \<Rightarrow> 'a \<Rightarrow> int) \<Rightarrow> 'a list \<Rightarrow> 'a list" where
  "js_sort c xs = foldr (insert_by c) xs []"

definition sorted_events :: "tool_event list \<Rightarrow> tool_event list" where
  "sorted_events latest = js_sort running_first latest"

text \<open>What the component shows for an event array: \<open>sorted\<close> of \<open>latestByTool\<close>.\<close>

definition snapshot :: "tool_event list \<Rightarrow> tool_event list" where
  "snapshot events = sorted_events (latestByTool events)"

definition is_started :: "tool_event \<Rightarrow> bool" where
  "is_started ev = (status ev = ''started'')"

text \<open>
  The order in which the names of a list first occur, and the position of the first
  \<open>started\<close> event of a tool in an event array (\<open>None\<close> when it never started).
\<close>

fun first_seen :: "'a list \<Rightarrow> 'a list" where
  "first_seen [] = []"
| "first_seen (x # xs) = x # filter (\<lambda>y. y \<noteq> x) (first_seen xs)"

fun first_started :: "tool_event list \<Rightarrow> string \<Rightarrow> nat option" where
  "first_started [] n = None"
| "first_started (ev # evs) n =
     (if tool ev = n \<and> status ev = ''started'' then Some 0
      else map_option Suc (first_started evs n))"

text \<open>
  The position of the first event of a tool, whatever its status; whether the first event
  of a tool is a \<open>started\<close> event; and "earlier" for two positions that both exist.
\<close>

fun first_event :: "tool_event list \<Rightarrow> string \<Rightarrow> nat option" where
  "first_event [] n = None"
| "first_event (ev # evs) n =
     (if tool ev = n then Some 0 else map_option Suc (first_event evs n))"

definition enters_started :: "tool_event list \<Rightarrow> string \<Rightarrow> bool" where
  "enters_started evs n = (map_option status (find (\<lambda>ev. tool ev = n) evs) = Some ''started'')"

fun earlier :: "nat option \<Rightarrow> nat option \<Rightarrow> bool" where
  "earlier (Some i) (Some j) = (i < j)"
| "earlier _ _ = False"

text \<open>
  Three events in arrival order: \<open>web_search\<close> reports \<open>completed\<close>, then
  \<open>file_search\<close> starts, then \<open>web_search\<close> starts again.
\<close>

definition restarted_events :: "tool_event list" where
  "restarted_events =
     [\<lparr>tool = ''web_search'', status = ''completed'', timestamp = ''2025-01-01T00:00:01Z'', message = None\<rparr>,
      \<lparr>tool = ''file_search'', status = ''started'', timestamp = ''2025-01-01T00:00:02Z'', message = None\<rparr>,
      \<lparr>tool = ''web_search'', status = ''started'', timestamp = ''2025-01-01T00:00:03Z'', message = None\<rparr>]"

text \<open>
  Four events in arrival order: \<open>web_search\<close>, \<open>file_search\<close> and \<open>generate_content\<close>
  start one after the other, then \<open>web_search\<close> completes. Every tool enters with a
  \<open>started\<close> event, and two tools are still running at the end.
\<close>

definition overlapping_events :: "tool_event list" where
  "overlapping_events =
     [\<lparr>tool = ''web_search'', status = ''started'', timestamp = ''t1'', message = None\<rparr>,
      \<lparr>tool = ''file_search'', status = ''started'', timestamp = ''t2'', message = None\<rparr>,
      \<lparr>tool = ''generate_content'', status = ''started'', timestamp = ''t3'', message = None\<rparr>,
      \<lparr>tool = ''web_search'', status = ''completed'', timestamp = ''t4'', message = None\<rparr>]"

subsection \<open>TOOL_CONFIG and the pill of an event\<close>

datatype icon = Globe | FileSearch | Pencil | ClipboardCheck | ImageIcon | Wrench | Search

record tool_config =
  Icon :: icon
  label :: string
  category :: string
  gradient :: string
  completedBg :: string

text \<open>The own properties of the object literal \<open>TOOL_CONFIG\<close>, in source order.\<close>

definition TOOL_CONFIG :: "(string \<times> tool_config) list" where
  "TOOL_CONFIG =
    [(''web_search'',
       \<lparr>Icon = Globe, label = ''Web Search'', category = ''search'',
        gradient = ''from-sky-500 to-blue-600'',
        completedBg = ''bg-sky-100 dark:bg-sky-900/40 text-sky-700 dark:text-sky-300 border-sky-300 dark:border-sky-700''\<rparr>),
     (''file_search'',
       \<lparr>Icon = FileSearch, label = ''File Search'', category = ''search'',
        gradient = ''from-violet-500 to-purple-600'',
        completedBg = ''bg-violet-100 dark:bg-violet-900/40 text-violet-700 dark:text-violet-300 border-violet-300 dark:border-violet-700''\<rparr>),
     (''generate_content'',
       \<lparr>Icon = Pencil, label = ''Generate Content'', category = ''content'',
        gradient = ''from-emerald-500 to-teal-600'',
        completedBg = ''bg-emerald-100 dark:bg-emerald-900/40 text-emerald-700 dark:text-emerald-300 border-emerald-300 dark:border-emerald-700''\<rparr>),
     (''review_content'',
       \<lparr>Icon = ClipboardCheck, label = ''Review Content'', category = ''review'',
        gradient = ''from-amber-500 to-orange-600'',
        completedBg = ''bg-amber-100 dark:bg-amber-900/40 text-amber-700 dark:text-amber-300 border-amber-300 dark:border-amber-700''\<rparr>),
     (''generate_image'',
       \<lparr>Icon = ImageIcon, label = ''Generate Image'', category = ''image'',
        gradient = ''from-pink-500 to-rose-600'',
        completedBg = ''bg-pink-100 dark:bg-pink-900/40 text-pink-700 dark:text-pink-300 border-pink-300 dark:border-pink-700''\<rparr>)]"

definition DEFAULT_CONFIG :: tool_config where
  "DEFAULT_CONFIG =
     \<lparr>Icon = Wrench, label = ''Tool'', category = ''other'',
      gradient = ''from-gray-500 to-gray-600'',
      completedBg = ''bg-gray-100 dark:bg-gray-800 text-gray-700 dark:text-gray-300 border-gray-300 dark:border-gray-700''\<rparr>"

text \<open>
  \<open>TOOL_CONFIG[ev.tool]\<close> is a property read on an object literal. JavaScript looks the
  name up among the object's own properties and then along its prototype chain, and the
  prototype of an object literal is \<open>Object.prototype\<close>. A name that \<open>Object.prototype\<close>
  defines therefore reads as that inherited member (a function, or the prototype object
  for \<open>__proto__\<close>), which is neither \<open>undefined\<close> nor \<open>null\<close>; any other name that is
  not an own property reads as \<open>undefined\<close>.
\<close>

definition Object_prototype :: "string list" where
  "Object_prototype =
     [''constructor'', ''hasOwnProperty'', ''isPrototypeOf'', ''propertyIsEnumerable'',
      ''toLocaleString'', ''toString'', ''valueOf'', ''__proto__'',
      ''__defineGetter__'', ''__defineSetter__'', ''__lookupGetter__'', ''__lookupSetter__'']"

datatype js_value = Config tool_config | Inherited string | Undefined

definition get_property :: "string \<Rightarrow> js_value" where
  "get_property name =
     (case map_of TOOL_CONFIG name of
        Some c \<Rightarrow> Config c
      | None \<Rightarrow> if name \<in> set Object_prototype then Inherited name else Undefined)"

text \<open>
  \<^verbatim>\<open>const cfg = TOOL_CONFIG[ev.tool] ?? DEFAULT_CONFIG;\<close>
  The operator \<open>??\<close> takes its right operand only when the left one is \<open>undefined\<close> or
  \<open>null\<close>.
\<close>

definition cfg_of :: "string \<Rightarrow> js_value" where
  "cfg_of name = (case get_property name of Undefined \<Rightarrow> Config DEFAULT_CONFIG | v \<Rightarrow> v)"

text \<open>
  The pill of one event: \<open>const Icon = cfg.Icon\<close>, then the element \<open><Icon ... />\<close> and the
  label \<open>cfg.label\<close>. An inherited member has no \<open>Icon\<close> property, so \<open>Icon\<close> is
  \<open>undefined\<close> there, and React refuses to render an element whose type is \<open>undefined\<close>
  (\<open>Element type is invalid\<close>): the render throws.
\<close>

datatype render_error = ElementTypeInvalid

record pill =
  pill_key :: string
  pill_icon :: icon
  pill_label :: string
  pill_running :: bool
  pill_error :: bool

definition render_pill :: "tool_event \<Rightarrow> render_error + pill" where
  "render_pill ev =
     (case cfg_of (tool ev) of
        Config cfg \<Rightarrow>
          Inr \<lparr>pill_key = tool ev, pill_icon = Icon cfg, pill_label = label cfg,
               pill_running = (status ev = ''started''), pill_error = (status ev = ''error'')\<rparr>
      | _ \<Rightarrow> Inl ElementTypeInvalid)"

text \<open>\<open>sorted.map((ev) => ...)\<close>: one pill per event, and the first throw ends the render.\<close>

fun render_pills :: "tool_event list \<Rightarrow> render_error + pill list" where
  "render_pills [] = Inr []"
| "render_pills (ev # evs) =
     (case render_pill ev of
        Inl err \<Rightarrow> Inl err
      | Inr p \<Rightarrow> (case render_pills evs of Inl err \<Rightarrow> Inl err | Inr ps \<Rightarrow> Inr (p # ps)))"

section \<open>The useI18n hook (src/unnamed/part_002)\<close>

text \<open>
  \<open>Array.prototype.indexOf\<close>: the first index of the element, \<open>-1\<close> when it is absent.
\<close>

fun indexOf :: "'a list \<Rightarrow> 'a \<Rightarrow> int" where
  "indexOf [] x = - 1"
| "indexOf (y # ys) x =
     (if y = x then 0 else (let i = indexOf ys x in if i < 0 then - 1 else i + 1))"

text \<open>
  \<^verbatim>\<open>const idx = ALL_LOCALES.indexOf(prev);
return ALL_LOCALES[(idx + 1) % ALL_LOCALES.length];\<close>
  \<open>ALL_LOCALES\<close> is declared in \<open>lib/i18n.ts\<close>, so it is a parameter here. On an empty
  array the index is \<open>NaN\<close> and the read gives \<open>undefined\<close>, which is \<open>None\<close>.
\<close>

definition toggleLocale :: "'a list \<Rightarrow> 'a \<Rightarrow> 'a option" where
  "toggleLocale ALL_LOCALES prev =
     (let idx = indexOf ALL_LOCALES prev in
      if length ALL_LOCALES = 0 then None
      else Some (ALL_LOCALES ! nat ((idx + 1) mod int (length ALL_LOCALES))))"

text \<open>The locale after \<open>n\<close> calls of \<open>toggleLocale\<close>.\<close>

fun toggle_times :: "'a list \<Rightarrow> nat \<Rightarrow> 'a \<Rightarrow> 'a option" where
  "toggle_times ALL_LOCALES 0 l = Some l"
| "toggle_times ALL_LOCALES (Suc n) l =
     (case toggleLocale ALL_LOCALES l of
        None \<Rightarrow> None
      | Some l' \<Rightarrow> toggle_times ALL_LOCALES n l')"

section \<open>The streaming decoder and the Session Controller, from the specification\<close>

text \<open>
  The stream decoder (\<open>parseChunk\<close> and the reader loop of \<open>frontend/src/lib/api.ts\<close>) and
  the code that keeps the session state (\<open>App.tsx\<close>) are not among the source files;
  only the decoder's test file is (\<open>api.test.ts\<close>, in \<open>src/unnamed/part_000\<close>). The
  definitions of this section follow sections 3, 4 and 6 of the specification. The test
  file's expectations hold of them (lemma \<open>decoder_agrees_with_the_tests\<close> below).
\<close>

subsection \<open>JSON values and JSON.parse\<close>

text \<open>
  Modelled from the spec: the value a payload "decodes to" as JSON. Numbers keep their
  source text; an object keeps its members in source order.
\<close>

datatype json =
    JNull
  | JBool bool
  | JNumber string
  | JString string
  | JArray "json list"
  | JObject "(string \<times> json) list"

text \<open>Modelled from the spec: the tokens of the JSON grammar, for the decoding step.\<close>

datatype token =
    TLBrace | TRBrace | TLBracket | TRBracket | TColon | TComma
  | TString string | TNumber string | TTrue | TFalse | TNull

text \<open>Modelled from the spec: JSON whitespace (space, tab, line feed, carriage return).\<close>

definition is_json_ws :: "char \<Rightarrow> bool" where
  "is_json_ws c = (c = CHR 0x20 \<or> c = CHR 0x09 \<or> c = CHR 0x0A \<or> c = CHR 0x0D)"

text \<open>Modelled from the spec: a decimal digit of a JSON number.\<close>

definition is_digit :: "char \<Rightarrow> bool" where
  "is_digit c = (c \<in> set ''0123456789'')"

text \<open>Modelled from the spec: the position of a character in a list, for hex digits.\<close>

fun position :: "char list \<Rightarrow> char \<Rightarrow> nat option" where
  "position [] c = None"
| "position (d # ds) c = (if d = c then Some 0 else map_option Suc (position ds c))"

text \<open>Modelled from the spec: the value of a hex digit of a \<open>\u\<close> escape.\<close>

definition hex_value :: "char \<Rightarrow> nat option" where
  "hex_value c =
     (case position ''0123456789abcdef'' c of
        Some n \<Rightarrow> Some n
      | None \<Rightarrow> map_option (\<lambda>n. n + 10) (position ''ABCDEF'' c))"

text \<open>
  Modelled from the spec: strings are byte strings here, so the code unit of a \<open>\u\<close>
  escape is written as its UTF-8 bytes.
\<close>

definition utf8 :: "nat \<Rightarrow> string" where
  "utf8 n =
     (if n < 0x80 then [char_of n]
      else if n < 0x800 then [char_of (0xC0 + n div 64), char_of (0x80 + n mod 64)]
      else [char_of (0xE0 + n div 4096), char_of (0x80 + (n div 64) mod 64),
            char_of (0x80 + n mod 64)])"

text \<open>Modelled from the spec: the one-character escapes of a JSON string.\<close>

definition unescape :: "char \<Rightarrow> char option" where
  "unescape e =
     (if e = CHR 0x22 then Some (CHR 0x22)
      else if e = CHR 0x5C then Some (CHR 0x5C)
      else if e = CHR ''/'' then Some (CHR ''/'')
      else if e = CHR ''b'' then Some (CHR 0x08)
      else if e = CHR ''f'' then Some (CHR 0x0C)
      else if e = CHR ''n'' then Some (CHR 0x0A)
      else if e = CHR ''r'' then Some (CHR 0x0D)
      else if e = CHR ''t'' then Some (CHR 0x09)
      else None)"

text \<open>Modelled from the spec: the four hex digits of a \<open>\u\<close> escape.\<close>

definition unicode_escape :: "string \<Rightarrow> string option" where
  "unicode_escape cs =
     (case map hex_value cs of
        [Some h1, Some h2, Some h3, Some h4] \<Rightarrow>
          Some (utf8 (((h1 * 16 + h2) * 16 + h3) * 16 + h4))
      | _ \<Rightarrow> None)"

text \<open>
  Modelled from the spec: a JSON string literal after its opening quote, up to the
  closing quote; the decoded string and the rest of the input. A control character and
  an unknown escape are errors.
\<close>

fun lex_string :: "string \<Rightarrow> (string \<times> string) option" where
  "lex_string [] = None"
| "lex_string (c # cs) =
     (if c = CHR 0x22 then Some ([], cs)
      else if c = CHR 0x5C then
        (case cs of
           [] \<Rightarrow> None
         | e # cs' \<Rightarrow>
             (if e = CHR ''u'' then
                (case cs' of
                   h1 # h2 # h3 # h4 # rest \<Rightarrow>
                     (case unicode_escape [h1, h2, h3, h4] of
                        None \<Rightarrow> None
                      | Some bytes \<Rightarrow>
                          map_option (\<lambda>(s, r). (bytes @ s, r)) (lex_string rest))
                 | _ \<Rightarrow> None)
              else
                (case unescape e of
                   None \<Rightarrow> None
                 | Some d \<Rightarrow> map_option (\<lambda>(s, r). (d # s, r)) (lex_string cs'))))
      else if of_char c < (0x20 :: nat) then None
      else map_option (\<lambda>(s, r). (c # s, r)) (lex_string cs))"

text \<open>Modelled from the spec: one or more digits.\<close>

definition digits :: "string \<Rightarrow> bool" where
  "digits s = (s \<noteq> [] \<and> list_all is_digit s)"

text \<open>Modelled from the spec: the optional exponent of a JSON number.\<close>

definition valid_exponent :: "string \<Rightarrow> bool" where
  "valid_exponent s =
     (case s of
        [] \<Rightarrow> True
      | e # s1 \<Rightarrow>
          (e = CHR ''e'' \<or> e = CHR ''E'') \<and>
          (case s1 of
             [] \<Rightarrow> False
           | g # s2 \<Rightarrow> if g = CHR ''+'' \<or> g = CHR ''-'' then digits s2 else digits s1))"

text \<open>Modelled from the spec: the optional fraction of a JSON number, then the exponent.\<close>

definition valid_fraction :: "string \<Rightarrow> bool" where
  "valid_fraction s =
     (case s of
        [] \<Rightarrow> True
      | d # s1 \<Rightarrow>
          if d = CHR ''.'' then
            takeWhile is_digit s1 \<noteq> [] \<and> valid_exponent (dropWhile is_digit s1)
          else valid_exponent s)"

text \<open>
  Modelled from the spec: the JSON number grammar (an optional minus, an integer part
  with no leading zero, an optional fraction, an optional exponent).
\<close>

definition valid_number :: "string \<Rightarrow> bool" where
  "valid_number s =
     (let u = (case s of [] \<Rightarrow> [] | c # cs \<Rightarrow> if c = CHR ''-'' then cs else s);
          ip = takeWhile is_digit u
      in ip \<noteq> [] \<and> (ip = ''0'' \<or> hd ip \<noteq> CHR ''0'') \<and> valid_fraction (dropWhile is_digit u))"

text \<open>Modelled from the spec: the characters a number token can hold.\<close>

definition is_number_char :: "char \<Rightarrow> bool" where
  "is_number_char c = (is_digit c \<or> c \<in> set ''+-.eE'')"

lemma lex_string_shorter: "lex_string cs = Some (s, r) \<Longrightarrow> length r < length cs"
proof (induction cs arbitrary: s r rule: lex_string.induct)
  case 1
  then show ?case by simp
next
  case (2 c cs)
  then show ?case
    by (auto split: if_splits list.splits option.splits prod.splits) fastforce+
qed

text \<open>
  Modelled from the spec: the tokens of a JSON text, \<open>None\<close> when a character fits no
  token.
\<close>

function lex :: "string \<Rightarrow> token list option" where
  "lex [] = Some []"
| "lex (c # cs) =
     (if is_json_ws c then lex cs
      else if c = CHR ''{'' then map_option ((#) TLBrace) (lex cs)
      else if c = CHR ''}'' then map_option ((#) TRBrace) (lex cs)
      else if c = CHR ''['' then map_option ((#) TLBracket) (lex cs)
      else if c = CHR '']'' then map_option ((#) TRBracket) (lex cs)
      else if c = CHR '':'' then map_option ((#) TColon) (lex cs)
      else if c = CHR '','' then map_option ((#) TComma) (lex cs)
      else if c = CHR 0x22 then
        (case lex_string cs of
           None \<Rightarrow> None
         | Some (s, rest) \<Rightarrow> map_option ((#) (TString s)) (lex rest))
      else if c = CHR ''-'' \<or> is_digit c then
        (if valid_number (takeWhile is_number_char (c # cs))
         then map_option ((#) (TNumber (takeWhile is_number_char (c # cs))))
                (lex (dropWhile is_number_char cs))
         else None)
      else if prefix ''true'' (c # cs) then map_option ((#) TTrue) (lex (drop 3 cs))
      else if prefix ''false'' (c # cs) then map_option ((#) TFalse) (lex (drop 4 cs))
      else if prefix ''null'' (c # cs) then map_option ((#) TNull) (lex (drop 3 cs))
      else None)"
  by pat_completeness auto
termination
proof (relation "measure length", goal_cases)
  case (9 c cs x2 x y)
  then show ?case
    using lex_string_shorter [of cs x y] by simp
next
  case (10 c cs)
  then show ?case
    by (simp add: le_imp_less_Suc length_dropWhile_le)
qed simp_all

text \<open>
  Modelled from the spec: the array or object under construction while the tokens are
  read: the elements so far (latest first), the members so far, or the members so far
  and the key whose value is awaited.
\<close>

datatype container =
    InArray "json list"
  | InObject "(string \<times> json) list"
  | AwaitValue "(string \<times> json) list" string

text \<open>Modelled from the spec: what the grammar allows next.\<close>

datatype mode = WantValue | ArrayStart | ObjectStart | WantKey | WantColon | AfterValue | Complete json

text \<open>Modelled from the spec: a finished value goes into the innermost open container.\<close>

fun deliver :: "json \<Rightarrow> container list \<Rightarrow> (mode \<times> container list) option" where
  "deliver v [] = Some (Complete v, [])"
| "deliver v (InArray xs # st) = Some (AfterValue, InArray (v # xs) # st)"
| "deliver v (AwaitValue ps k # st) = Some (AfterValue, InObject ((k, v) # ps) # st)"
| "deliver v (InObject ps # st) = None"

text \<open>Modelled from the spec: the value of a token that is a value by itself.\<close>

fun scalar :: "token \<Rightarrow> json option" where
  "scalar (TString s) = Some (JString s)"
| "scalar (TNumber n) = Some (JNumber n)"
| "scalar TTrue = Some (JBool True)"
| "scalar TFalse = Some (JBool False)"
| "scalar TNull = Some JNull"
| "scalar _ = None"

text \<open>Modelled from the spec: the token that starts a value.\<close>

fun begin_value :: "container list \<Rightarrow> token \<Rightarrow> (mode \<times> container list) option" where
  "begin_value st TLBracket = Some (ArrayStart, InArray [] # st)"
| "begin_value st TLBrace = Some (ObjectStart, InObject [] # st)"
| "begin_value st t = (case scalar t of None \<Rightarrow> None | Some v \<Rightarrow> deliver v st)"

text \<open>Modelled from the spec: one token of the JSON grammar; \<open>None\<close> is a syntax error.\<close>

fun step :: "mode \<Rightarrow> container list \<Rightarrow> token \<Rightarrow> (mode \<times> container list) option" where
  "step WantValue st t = begin_value st t"
| "step ArrayStart (InArray xs # st) TRBracket = deliver (JArray (rev xs)) st"
| "step ArrayStart st t = begin_value st t"
| "step ObjectStart (InObject ps # st) TRBrace = deliver (JObject (rev ps)) st"
| "step ObjectStart (InObject ps # st) (TString k) = Some (WantColon, AwaitValue ps k # st)"
| "step WantKey (InObject ps # st) (TString k) = Some (WantColon, AwaitValue ps k # st)"
| "step WantColon st TColon = Some (WantValue, st)"
| "step AfterValue (InArray xs # st) TComma = Some (WantValue, InArray xs # st)"
| "step AfterValue (InArray xs # st) TRBracket = deliver (JArray (rev xs)) st"
| "step AfterValue (InObject ps # st) TComma = Some (WantKey, InObject ps # st)"
| "step AfterValue (InObject ps # st) TRBrace = deliver (JObject (rev ps)) st"
| "step _ _ _ = None"

text \<open>Modelled from the spec: the tokens of one JSON value and nothing after it.\<close>

fun run_tokens :: "mode \<Rightarrow> container list \<Rightarrow> token list \<Rightarrow> json option" where
  "run_tokens m st [] = (case (m, st) of (Complete v, []) \<Rightarrow> Some v | _ \<Rightarrow> None)"
| "run_tokens m st (t # ts) =
     (case step m st t of None \<Rightarrow> None | Some (m', st') \<Rightarrow> run_tokens m' st' ts)"

text \<open>
  Modelled from the spec: "attempt to decode payload as JSON" (\<open>JSON.parse\<close>); \<open>None\<close>
  is the decode failure.
\<close>

definition json_decode :: "string \<Rightarrow> json option" where
  "json_decode s = (case lex s of None \<Rightarrow> None | Some ts \<Rightarrow> run_tokens WantValue [] ts)"

text \<open>
  Modelled from the spec: \<open>obj.field\<close> on a decoded value; \<open>None\<close> is \<open>undefined\<close>. Of a
  repeated key the last member counts, as in \<open>JSON.parse\<close>.
\<close>

fun jfield :: "json \<Rightarrow> string \<Rightarrow> json option" where
  "jfield (JObject ps) k = map_of (rev ps) k"
| "jfield _ k = None"

subsection \<open>The Frame Classifier (specification, section 4.1)\<close>

text \<open>Modelled from the spec: the two marker pairs, "kind: ToolEvent|ReasoningReplace".\<close>

datatype marker_kind = ToolEventMarker | ReasoningReplaceMarker

text \<open>
  Modelled from the spec: a LogicalFrame. A \<open>JsonEnvelope\<close> holds the trimmed text that
  passed the structural sniff; decoding it is the parser's step, which is where the
  specification puts the failure ("if parsing nonetheless fails ... the result is
  Ignored").
\<close>

datatype frame = PlainText string | Marked marker_kind string | JsonEnvelope string

text \<open>Modelled from the spec: the opening delimiter literals (section 6).\<close>

fun open_delim :: "marker_kind \<Rightarrow> string" where
  "open_delim ToolEventMarker = ''__TOOL_EVENT__''"
| "open_delim ReasoningReplaceMarker = ''__REASONING_REPLACE__''"

text \<open>Modelled from the spec: the closing delimiter literals (section 6).\<close>

fun close_delim :: "marker_kind \<Rightarrow> string" where
  "close_delim ToolEventMarker = ''__END_TOOL_EVENT__''"
| "close_delim ReasoningReplaceMarker = ''__END_REASONING_REPLACE__''"

text \<open>Modelled from the spec: the whitespace that "trimmed" and "whitespace-only" mean.\<close>

definition is_space :: "char \<Rightarrow> bool" where
  "is_space c = (c \<in> set [CHR 0x20, CHR 0x09, CHR 0x0A, CHR 0x0B, CHR 0x0C, CHR 0x0D])"

text \<open>Modelled from the spec: "the string, trimmed".\<close>

definition trim :: "string \<Rightarrow> string" where
  "trim s = rev (dropWhile is_space (rev (dropWhile is_space s)))"

text \<open>
  Modelled from the spec: the structural sniff, "looks like a single complete JSON object
  or array": the text opens with a brace or bracket and ends with the matching one.
\<close>

definition looks_like_json :: "string \<Rightarrow> bool" where
  "looks_like_json t =
     (case t of
        [] \<Rightarrow> False
      | c # cs \<Rightarrow> (c = CHR ''{'' \<and> last t = CHR ''}'') \<or> (c = CHR ''['' \<and> last t = CHR '']''))"

text \<open>
  Modelled from the spec: a text segment is a \<open>JsonEnvelope\<close> when its trimmed text passes
  the sniff, and \<open>PlainText\<close> verbatim otherwise.
\<close>

definition text_frame :: "string \<Rightarrow> frame" where
  "text_frame s = (if looks_like_json (trim s) then JsonEnvelope (trim s) else PlainText s)"

text \<open>Modelled from the spec: "any text preceding the next marker"; no text, no frame.\<close>

definition text_frames :: "string \<Rightarrow> frame list" where
  "text_frames s = (if s = [] then [] else [text_frame s])"

text \<open>
  Modelled from the spec: "a string consisting solely of the carriage-return/space
  characters representing the start of an unterminated delivery is deferred".
\<close>

definition deferred :: "string \<Rightarrow> bool" where
  "deferred s = (s \<noteq> [] \<and> list_all (\<lambda>c. c = CHR 0x0D \<or> c = CHR 0x20) s)"

text \<open>
  Modelled from the spec: the scan "for the start of a recognized marker pair ... in
  first-to-last order of appearance": the text before the first opening delimiter, its
  kind, and the text after it.
\<close>

fun next_marker :: "string \<Rightarrow> (string \<times> marker_kind \<times> string) option" where
  "next_marker [] = None"
| "next_marker (c # cs) =
     (if prefix (open_delim ToolEventMarker) (c # cs)
      then Some ([], ToolEventMarker, drop (length (open_delim ToolEventMarker)) (c # cs))
      else if prefix (open_delim ReasoningReplaceMarker) (c # cs)
      then Some ([], ReasoningReplaceMarker, drop (length (open_delim ReasoningReplaceMarker)) (c # cs))
      else map_option (\<lambda>(pre, k, rest). (c # pre, k, rest)) (next_marker cs))"

text \<open>
  Modelled from the spec: the search for a closing delimiter: the text before its first
  occurrence and the text after it.
\<close>

fun split_on :: "string \<Rightarrow> string \<Rightarrow> (string \<times> string) option" where
  "split_on p [] = (if p = [] then Some ([], []) else None)"
| "split_on p (c # cs) =
     (if prefix p (c # cs) then Some ([], drop (length p) (c # cs))
      else map_option (\<lambda>(pre, rest). (c # pre, rest)) (split_on p cs))"

lemma next_marker_decomp:
  "next_marker s = Some (pre, k, rest) \<Longrightarrow> s = pre @ open_delim k @ rest"
proof (induction s arbitrary: pre)
  case Nil
  then show ?case by simp
next
  case (Cons c cs)
  then show ?case
    by (auto simp: prefix_def split: if_splits)
qed

lemma split_on_decomp:
  "split_on p s = Some (pre, rest) \<Longrightarrow> s = pre @ p @ rest"
proof (induction s arbitrary: pre)
  case Nil
  then show ?case by (simp split: if_splits)
next
  case (Cons c cs)
  then show ?case
    by (auto simp: prefix_def split: if_splits)
qed

text \<open>
  Modelled from the spec: the classifier's pass over the buffer. With no opening
  delimiter left, the remaining text is one text frame (or is deferred). An opening
  delimiter with its closing delimiter gives the text before it and a \<open>Marked\<close> frame,
  and the scan goes on after the closing delimiter. An opening delimiter with no closing
  delimiter yet ends the scan: "the unmatched opening-marker-onward substring becomes
  remainder".
\<close>

function scan :: "string \<Rightarrow> frame list \<times> string" where
  "scan s =
     (case next_marker s of
        None \<Rightarrow>
          (if s = [] then ([], [])
           else if deferred s then ([], s)
           else ([text_frame s], []))
      | Some (pre, k, rest) \<Rightarrow>
          (case split_on (close_delim k) rest of
             None \<Rightarrow> (text_frames pre, open_delim k @ rest)
           | Some (payload, rest') \<Rightarrow>
               (case scan rest' of
                  (frames, remainder) \<Rightarrow>
                    (text_frames pre @ Marked k payload # frames, remainder))))"
  by pat_completeness auto
termination
proof (relation "measure length", goal_cases)
  case 1
  then show ?case by simp
next
  case (2 s x2 pre y k rest x2a payload rest')
  then show ?case
    using next_marker_decomp [of s pre k rest] split_on_decomp [of "close_delim k" rest payload rest']
    by (cases k) simp_all
qed

declare scan.simps [simp del]

text \<open>
  Modelled from the spec: \<open>classify(buffer_tail, newChunk) -> (frames, remainder)\<close>, which
  "treats the input as one unbounded string formed by concatenating buffer_tail and
  newChunk".
\<close>

definition classify :: "string \<Rightarrow> string \<Rightarrow> frame list \<times> string" where
  "classify buffer_tail newChunk = scan (buffer_tail @ newChunk)"

text \<open>
  Modelled from the spec: the classifier over the chunks of a stream in arrival order,
  each call given the remainder of the one before: all frames, and the last remainder.
\<close>

fun classify_all :: "string \<Rightarrow> string list \<Rightarrow> frame list \<times> string" where
  "classify_all buffer_tail [] = ([], buffer_tail)"
| "classify_all buffer_tail (chunk # chunks) =
     (case classify buffer_tail chunk of
        (frames, remainder) \<Rightarrow>
          (case classify_all remainder chunks of
             (frames', remainder') \<Rightarrow> (frames @ frames', remainder')))"

subsection \<open>Where a stream is cut into chunks\<close>

text \<open>
  The text of a stream prefix after its last complete marked frame. The prefix is read
  from the left; an opening delimiter that has its closing delimiter is passed over
  together with its frame. What is left is text with no opening delimiter in it, or text
  up to and including an opening delimiter whose closing delimiter has not arrived.
\<close>

function after_frames :: "string \<Rightarrow> string" where
  "after_frames s =
     (case next_marker s of
        None \<Rightarrow> s
      | Some (pre, k, rest) \<Rightarrow>
          (case split_on (close_delim k) rest of
             None \<Rightarrow> s
           | Some (payload, rest') \<Rightarrow> after_frames rest'))"
  by pat_completeness auto
termination
proof (relation "measure length", goal_cases)
  case 1
  then show ?case by simp
next
  case (2 s x2 pre y k rest x2a payload rest')
  then show ?case
    using next_marker_decomp [of s pre k rest] split_on_decomp [of "close_delim k" rest payload rest']
    by (cases k) simp_all
qed

declare after_frames.simps [simp del]

text \<open>The text a chunk begins with: the chunk up to its first opening delimiter.\<close>

definition lead :: "string \<Rightarrow> string" where
  "lead b = (case next_marker b of None \<Rightarrow> b | Some (pre, k, rest) \<Rightarrow> pre)"

text \<open>A piece of text that is neither whitespace-only nor, trimmed, JSON-looking.\<close>

definition plain :: "string \<Rightarrow> bool" where
  "plain x = (trim x \<noteq> [] \<and> \<not> looks_like_json (trim x))"

text \<open>
  An opening delimiter straddles the cut between the text \<open>u\<close> and the chunk \<open>b\<close>: the
  first opening delimiter of \<open>u @ b\<close> begins inside \<open>u\<close>.
\<close>

definition straddles :: "string \<Rightarrow> string \<Rightarrow> bool" where
  "straddles u b =
     (case next_marker (u @ b) of
        None \<Rightarrow> False
      | Some (pre, k, rest) \<Rightarrow> length pre < length u)"

text \<open>
  A cut of the stream between the prefix \<open>p\<close> and the next chunk \<open>b\<close> that leaves
  every frame whole. With \<open>u\<close> the text of \<open>p\<close> after its last complete marked frame, the
  cut falls

    \<^item> at the edge of a frame or at the start of the stream (\<open>u\<close> is empty), or
    \<^item> inside a marked frame, after its complete opening delimiter (\<open>u\<close> holds an opening
      delimiter), or
    \<^item> after carriage-return/space padding only, or
    \<^item> inside text, where no opening delimiter straddles the cut and either \<open>b\<close> begins
      with an opening delimiter or is empty, or the text on either side of the cut is
      plain and the two sides joined are not JSON-looking.
\<close>

definition cut_ok :: "string \<Rightarrow> string \<Rightarrow> bool" where
  "cut_ok p b =
     (let u = after_frames p in
        u = [] \<or> next_marker u \<noteq> None \<or> deferred u
        \<or> (\<not> straddles u b
            \<and> (lead b = []
                \<or> (plain u \<and> plain (lead b) \<and> \<not> looks_like_json (trim (u @ lead b))))))"

text \<open>Every cut of a stream delivered as the given chunks, after the prefix \<open>p\<close>.\<close>

fun cuts_ok :: "string \<Rightarrow> string list \<Rightarrow> bool" where
  "cuts_ok p [] = True"
| "cuts_ok p (chunk # chunks) = (cut_ok p chunk \<and> cuts_ok (p @ chunk) chunks)"

subsection \<open>The Frame Parser (specification, section 4.2)\<close>

text \<open>
  Modelled from the spec: a ParsedEvent. A tool event is the record the ToolEvents
  component reads. \<open>Done\<close>, \<open>Error\<close> and \<open>ContentSnapshot\<close> carry \<open>obj.thread_id\<close> and
  \<open>obj.error\<close> as they stand in the envelope (\<open>None\<close> when the field is absent).
\<close>

datatype parsed_event =
    TextDelta string
  | ReasoningDelta string bool
  | ToolEvent tool_event
  | Done "json option"
  | Error json
  | ContentSnapshot string "json option"
  | Ignored

text \<open>
  Modelled from the spec: a tool-event payload "decodes to \<open>{type:"tool_event", tool,
  status, timestamp, message?}\<close>", the status one of started, completed, error; a decode
  failure and any other shape give \<open>Ignored\<close>.
\<close>

definition parse_tool_event :: "string \<Rightarrow> parsed_event" where
  "parse_tool_event payload =
     (case json_decode payload of
        None \<Rightarrow> Ignored
      | Some obj \<Rightarrow>
          (case (jfield obj ''type'', jfield obj ''tool'', jfield obj ''status'', jfield obj ''timestamp'') of
             (Some (JString ty), Some (JString name), Some (JString st), Some (JString ts)) \<Rightarrow>
               if ty = ''tool_event'' \<and> st \<in> set [''started'', ''completed'', ''error'']
               then ToolEvent
                      \<lparr>tool = name, status = st, timestamp = ts,
                       message = (case jfield obj ''message'' of Some (JString m) \<Rightarrow> Some m | _ \<Rightarrow> None)\<rparr>
               else Ignored
           | _ \<Rightarrow> Ignored))"

text \<open>
  Modelled from the spec: the content string of the first message whose role is
  \<open>assistant\<close>.
\<close>

fun assistant_content :: "json list \<Rightarrow> string option" where
  "assistant_content [] = None"
| "assistant_content (m # ms) =
     (case (jfield m ''role'', jfield m ''content'') of
        (Some (JString r), Some (JString c)) \<Rightarrow>
          if r = ''assistant'' then Some c else assistant_content ms
      | _ \<Rightarrow> assistant_content ms)"

text \<open>
  Modelled from the spec: "\<open>obj.choices\<close> present, non-empty, with a nested assistant
  message content string", in the shape
  \<open>{"choices":[{"messages":[{"role":"assistant","content":"..."}]}]}\<close> of section 6.
\<close>

definition extract_content :: "json \<Rightarrow> string option" where
  "extract_content obj =
     (case jfield obj ''choices'' of
        Some (JArray (choice # _)) \<Rightarrow>
          (case jfield choice ''messages'' of
             Some (JArray ms) \<Rightarrow> assistant_content ms
           | _ \<Rightarrow> None)
      | _ \<Rightarrow> None)"

text \<open>
  Modelled from the spec: the precedence order of a JsonEnvelope, first match wins:
  done, error, reasoning_update, choices, and \<open>Ignored\<close> for none of them.
\<close>

definition parse_envelope :: "json \<Rightarrow> parsed_event" where
  "parse_envelope obj =
     (if jfield obj ''type'' = Some (JString ''done'') then Done (jfield obj ''thread_id'')
      else case jfield obj ''error'' of
        Some e \<Rightarrow> Error e
      | None \<Rightarrow>
          if jfield obj ''type'' = Some (JString ''reasoning_update'') then
            (case jfield obj ''reasoning'' of
               Some (JString r) \<Rightarrow> ReasoningDelta r False
             | _ \<Rightarrow> Ignored)
          else
            (case extract_content obj of
               Some c \<Rightarrow> ContentSnapshot c (jfield obj ''thread_id'')
             | None \<Rightarrow> Ignored))"

text \<open>Modelled from the spec: \<open>parse(frame: LogicalFrame) -> ParsedEvent\<close>.\<close>

fun parse :: "frame \<Rightarrow> parsed_event" where
  "parse (PlainText s) = (if trim s = [] then Ignored else TextDelta s)"
| "parse (Marked ToolEventMarker payload) = parse_tool_event payload"
| "parse (Marked ReasoningReplaceMarker payload) = ReasoningDelta payload True"
| "parse (JsonEnvelope raw) =
     (case json_decode raw of None \<Rightarrow> Ignored | Some obj \<Rightarrow> parse_envelope obj)"

text \<open>
  Modelled from the spec: "classify then parse" over a stream delivered as the given
  chunks: the ordered ParsedEvent sequence.
\<close>

definition events_of :: "string list \<Rightarrow> parsed_event list" where
  "events_of chunks = map parse (fst (classify_all [] chunks))"

text \<open>
  Modelled from the spec: "consecutive TextDelta events may merge/split differently":
  an event sequence with every run of consecutive \<open>TextDelta\<close> events merged into one.
\<close>

fun merge_text :: "parsed_event list \<Rightarrow> parsed_event list" where
  "merge_text (TextDelta a # TextDelta b # es) = merge_text (TextDelta (a @ b) # es)"
| "merge_text (e # es) = e # merge_text es"
| "merge_text [] = []"

subsection \<open>The Session Controller (specification, sections 3 and 4.5)\<close>

text \<open>Modelled from the spec: ReasoningPhase, "strictly ordered".\<close>

datatype reasoning_phase = NoPhase | ChainOfThought | ReactActing | SelfReflection

text \<open>
  Modelled from the spec: the total order None < ChainOfThought < ReactActing <
  SelfReflection.
\<close>

fun phase_rank :: "reasoning_phase \<Rightarrow> nat" where
  "phase_rank NoPhase = 0"
| "phase_rank ChainOfThought = 1"
| "phase_rank ReactActing = 2"
| "phase_rank SelfReflection = 3"

text \<open>Modelled from the spec: \<open>max(currentPhase, detectedPhase)\<close>.\<close>

definition phase_max :: "reasoning_phase \<Rightarrow> reasoning_phase \<Rightarrow> reasoning_phase" where
  "phase_max a b = (if phase_rank a \<le> phase_rank b then b else a)"

text \<open>Modelled from the spec: how a session ended, "terminal flag (done/errored/aborted)".\<close>

datatype outcome = Completed | BackendError json | Cancelled

text \<open>
  Modelled from the spec: SessionState: accumulated text, accumulated reasoning
  transcript, the tool records (a Map by tool name, as in the ToolEvents component),
  the reasoning phase, the terminal flag and the resolved thread identifier.
\<close>

record session_state =
  content :: string
  reasoning :: string
  tool_records :: "(string \<times> tool_event) list"
  phase :: reasoning_phase
  terminal :: "outcome option"
  threadId :: "json option"

text \<open>Modelled from the spec: the state "created when a request is submitted".\<close>

definition initial_state :: session_state where
  "initial_state =
     \<lparr>content = [], reasoning = [], tool_records = [], phase = NoPhase,
      terminal = None, threadId = None\<rparr>"

text \<open>Modelled from the spec: the session reached the terminal success signal.\<close>

definition is_done :: "session_state \<Rightarrow> bool" where
  "is_done st = (terminal st = Some Completed)"

text \<open>
  Modelled from the spec: the controller's update for one ParsedEvent (section 4.5). A
  terminal session is frozen. The keyword heuristic of the Reasoning Phase Detector is
  not given by the specification and is the parameter \<open>detect\<close>.
\<close>

fun apply_event ::
  "(string \<Rightarrow> reasoning_phase) \<Rightarrow> session_state \<Rightarrow> parsed_event \<Rightarrow> session_state" where
  "apply_event detect st ev =
     (if terminal st \<noteq> None then st
      else case ev of
        TextDelta t \<Rightarrow> st\<lparr>content := content st @ t\<rparr>
      | ContentSnapshot t tid \<Rightarrow>
          st\<lparr>content := t, threadId := (case tid of None \<Rightarrow> threadId st | Some i \<Rightarrow> Some i)\<rparr>
      | ReasoningDelta r replace \<Rightarrow>
          (let transcript = (if replace then r else reasoning st @ r)
           in st\<lparr>reasoning := transcript, phase := phase_max (phase st) (detect transcript)\<rparr>)
      | ToolEvent te \<Rightarrow> st\<lparr>tool_records := map_set (tool_records st) (tool te) te\<rparr>
      | Done tid \<Rightarrow>
          st\<lparr>terminal := Some Completed,
             threadId := (case tid of None \<Rightarrow> threadId st | Some i \<Rightarrow> Some i)\<rparr>
      | Error e \<Rightarrow> st\<lparr>terminal := Some (BackendError e)\<rparr>
      | Ignored \<Rightarrow> st)"

text \<open>
  Modelled from the spec: one delivered chunk: classify with the remainder held so far,
  parse each frame, update the state for each event in order.
\<close>

definition deliver_chunk ::
  "(string \<Rightarrow> reasoning_phase) \<Rightarrow> session_state \<times> string \<Rightarrow> string \<Rightarrow> session_state \<times> string" where
  "deliver_chunk detect s chunk =
     (case classify (snd s) chunk of
        (frames, remainder) \<Rightarrow> (foldl (apply_event detect) (fst s) (map parse frames), remainder))"

text \<open>Modelled from the spec: the state of a fresh session after the given chunks.\<close>

definition run_session :: "(string \<Rightarrow> reasoning_phase) \<Rightarrow> string list \<Rightarrow> session_state" where
  "run_session detect chunks = fst (foldl (deliver_chunk detect) (initial_state, []) chunks)"

text \<open>The defining equations that evaluate the decoder on a concrete stream.\<close>

lemmas decode_simps = json_decode_def is_json_ws_def is_digit_def is_number_char_def
  valid_number_def valid_fraction_def valid_exponent_def digits_def unescape_def

lemmas classify_simps = classify_def scan.simps text_frame_def text_frames_def trim_def
  is_space_def looks_like_json_def deferred_def

lemmas parse_simps = parse_envelope_def parse_tool_event_def extract_content_def

lemmas cut_simps = cut_ok_def after_frames.simps lead_def plain_def straddles_def Let_def

section \<open>The Tool Status Tracker keeps the last event of every tool\<close>

lemma find_app:
  "find P (xs @ ys) = (case find P xs of None \<Rightarrow> find P ys | Some x \<Rightarrow> Some x)"
  by (induction xs) auto

lemma map_set_keys:
  "map fst (map_set m k v) = (if k \<in> set (map fst m) then map fst m else map fst m @ [k])"
  by (induction m) force+

lemma map_set_find_same:
  "find (\<lambda>p. fst p = k) (map_set m k v) = Some (k, v)"
  by (induction m) auto

lemma map_set_find_other:
  "k' \<noteq> k \<Longrightarrow> find (\<lambda>p. fst p = k') (map_set m k v) = find (\<lambda>p. fst p = k') m"
  by (induction m) auto

lemma map_set_subset: "set (map_set m k v) \<subseteq> insert (k, v) (set m)"
  by (induction m) (auto split: if_splits)

lemma foldl_map_set_distinct:
  fixes evs :: "tool_event list"
  shows "distinct (map fst m) \<Longrightarrow>
   distinct (map fst (foldl (\<lambda>m ev. map_set m (tool ev) ev) m evs))"
proof (induction evs arbitrary: m)
  case Nil
  then show ?case by simp
next
  case (Cons e evs)
  have "distinct (map fst (map_set m (tool e) e))"
    using Cons.prems by (simp add: map_set_keys)
  then show ?case using Cons.IH by simp
qed

lemma foldl_map_set_find:
  fixes evs :: "tool_event list"
  shows "find (\<lambda>p. fst p = n) (foldl (\<lambda>m ev. map_set m (tool ev) ev) m evs) =
     (case find (\<lambda>e. tool e = n) (rev evs) of
        Some e \<Rightarrow> Some (n, e)
      | None \<Rightarrow> find (\<lambda>p. fst p = n) m)"
proof (induction evs arbitrary: m)
  case Nil
  then show ?case by simp
next
  case (Cons e evs)
  show ?case
  proof (cases "find (\<lambda>e. tool e = n) (rev evs)")
    case (Some e')
    then show ?thesis using Cons.IH by (simp add: find_app)
  next
    case None
    then show ?thesis
      using Cons.IH by (simp add: find_app map_set_find_same map_set_find_other)
  qed
qed

lemma foldl_map_set_keyed:
  fixes evs :: "tool_event list"
  shows "\<forall>p \<in> set m. fst p = tool (snd p) \<Longrightarrow>
   \<forall>p \<in> set (foldl (\<lambda>m ev. map_set m (tool ev) ev) m evs). fst p = tool (snd p)"
proof (induction evs arbitrary: m)
  case Nil
  then show ?case by simp
next
  case (Cons e evs)
  have "set (map_set m (tool e) e) \<subseteq> insert (tool e, e) (set m)"
    by (rule map_set_subset)
  then have "\<forall>p \<in> set (map_set m (tool e) e). fst p = tool (snd p)"
    using Cons.prems by fastforce
  then show ?case using Cons.IH by simp
qed

lemma find_map_snd_keyed:
  fixes m :: "(string \<times> tool_event) list"
  shows "\<forall>p \<in> set m. fst p = tool (snd p) \<Longrightarrow>
   find (\<lambda>r. tool r = n) (map snd m) = map_option snd (find (\<lambda>p. fst p = n) m)"
  by (induction m) auto

lemma latestByTool_tools:
  "map tool (latestByTool evs) =
     map fst (foldl (\<lambda>m ev. map_set m (tool ev) ev) [] evs)"
proof -
  have "\<forall>p \<in> set (foldl (\<lambda>m ev. map_set m (tool ev) ev) [] evs). fst p = tool (snd p)"
    by (rule foldl_map_set_keyed) simp
  then show ?thesis
    unfolding latestByTool_def by (simp add: comp_def)
qed

lemma latestByTool_distinct: "distinct (map tool (latestByTool evs))"
  by (simp add: latestByTool_tools foldl_map_set_distinct)

lemma latestByTool_find:
  "find (\<lambda>r. tool r = n) (latestByTool evs) = find (\<lambda>e. tool e = n) (rev evs)"
proof -
  have keyed: "\<forall>p \<in> set (foldl (\<lambda>m ev. map_set m (tool ev) ev) [] evs). fst p = tool (snd p)"
    by (rule foldl_map_set_keyed) simp
  show ?thesis
    unfolding latestByTool_def
    by (simp add: find_map_snd_keyed [OF keyed] foldl_map_set_find split: option.split)
qed

text \<open>
  C3. The tracker holds exactly one record per tool name (the names of the records are
  distinct), the record it holds for a name is the last event that arrived for that name,
  whatever the timestamps say, and a name that ever had an event keeps a record (no
  record is looked up exactly when no event of that name arrived). Two events for one
  tool, \<open>started\<close> then \<open>completed\<close>, leave the single \<open>completed\<close> record.
\<close>

theorem tracker_keeps_last_event_per_tool:
  "distinct (map tool (latestByTool evs))
   \<and> find (\<lambda>r. tool r = n) (latestByTool evs) = find (\<lambda>e. tool e = n) (rev evs)
   \<and> set (map tool (latestByTool evs)) = set (map tool evs)
   \<and> latestByTool
        [\<lparr>tool = x, status = ''started'', timestamp = t1, message = m1\<rparr>,
         \<lparr>tool = x, status = ''completed'', timestamp = t2, message = m2\<rparr>]
      = [\<lparr>tool = x, status = ''completed'', timestamp = t2, message = m2\<rparr>]"
proof -
  have names: "set (map tool (latestByTool evs)) = set (map tool evs)"
  proof (rule set_eqI)
    fix k
    have "k \<in> set (map tool (latestByTool evs))
          \<longleftrightarrow> find (\<lambda>r. tool r = k) (latestByTool evs) \<noteq> None"
      by (auto simp: find_None_iff)
    also have "\<dots> \<longleftrightarrow> find (\<lambda>e. tool e = k) (rev evs) \<noteq> None"
      by (simp add: latestByTool_find)
    also have "\<dots> \<longleftrightarrow> k \<in> set (map tool evs)"
      by (auto simp: find_None_iff)
    finally show "k \<in> set (map tool (latestByTool evs)) \<longleftrightarrow> k \<in> set (map tool evs)" .
  qed
  show ?thesis
    using names by (simp add: latestByTool_distinct latestByTool_find) (simp add: latestByTool_def)
qed


section \<open>The snapshot order\<close>

lemma insert_by_started:
  "is_started x \<Longrightarrow> insert_by running_first x zs = x # zs"
  by (cases zs) (auto simp: running_first_def is_started_def)

lemma insert_by_not_started:
  "\<not> is_started x \<Longrightarrow> \<forall>y \<in> set as. is_started y \<Longrightarrow> \<forall>y \<in> set bs. \<not> is_started y \<Longrightarrow>
   insert_by running_first x (as @ bs) = as @ x # bs"
proof (induction as)
  case Nil
  then show ?case
    by (cases bs) (auto simp: running_first_def is_started_def)
next
  case (Cons a as)
  then show ?case
    by (simp add: running_first_def is_started_def)
qed

lemma sorted_events_partition:
  "sorted_events rs = filter is_started rs @ filter (\<lambda>r. \<not> is_started r) rs"
proof (induction rs)
  case Nil
  then show ?case by (simp add: sorted_events_def js_sort_def)
next
  case (Cons r rs)
  have step: "sorted_events (r # rs) = insert_by running_first r (sorted_events rs)"
    by (simp add: sorted_events_def js_sort_def)
  show ?case
  proof (cases "is_started r")
    case True
    then show ?thesis
      using Cons.IH by (simp add: step insert_by_started)
  next
    case False
    then show ?thesis
      using Cons.IH by (simp add: step insert_by_not_started)
  qed
qed

lemma foldl_map_set_first_seen:
  fixes evs :: "tool_event list"
  shows "map fst (foldl (\<lambda>m ev. map_set m (tool ev) ev) m evs) =
     map fst m @ filter (\<lambda>k. k \<notin> set (map fst m)) (first_seen (map tool evs))"
proof (induction evs arbitrary: m)
  case Nil
  then show ?case by simp
next
  case (Cons e evs)
  show ?case
  proof (cases "tool e \<in> set (map fst m)")
    case True
    then have keys: "map fst (map_set m (tool e) e) = map fst m"
      by (simp add: map_set_keys)
    have "filter (\<lambda>k. k \<notin> set (map fst m)) (filter (\<lambda>y. y \<noteq> tool e) (first_seen (map tool evs)))
            = filter (\<lambda>k. k \<notin> set (map fst m)) (first_seen (map tool evs))"
      using True by (auto intro: filter_cong)
    then show ?thesis
      using True Cons.IH [of "map_set m (tool e) e"] by (simp add: keys)
  next
    case False
    then have keys: "map fst (map_set m (tool e) e) = map fst m @ [tool e]"
      by (simp add: map_set_keys)
    have "filter (\<lambda>k. k \<notin> set (map fst m @ [tool e])) (first_seen (map tool evs))
            = filter (\<lambda>k. k \<notin> set (map fst m)) (filter (\<lambda>y. y \<noteq> tool e) (first_seen (map tool evs)))"
      by (auto intro: filter_cong)
    then show ?thesis
      using False Cons.IH [of "map_set m (tool e) e"] by (simp add: keys)
  qed
qed

lemma latestByTool_first_seen: "map tool (latestByTool evs) = first_seen (map tool evs)"
  by (simp add: latestByTool_tools foldl_map_set_first_seen)

lemma latestByTool_holds_last: "e \<in> set (latestByTool (evs @ [e]))"
proof -
  have "find (\<lambda>r. tool r = tool e) (latestByTool (evs @ [e])) = Some e"
    by (simp add: latestByTool_find)
  then show ?thesis
    by (metis find_Some_iff nth_mem)
qed

text \<open>
  C4, as the claim states it, asks that the started records stand in first-started-first
  order. On \<open>restarted_events\<close> both tools end \<open>started\<close>, \<open>file_search\<close> started first
  (its \<open>started\<close> event is at position 1 and carries the earlier timestamp, that of
  \<open>web_search\<close> is at position 2), and the snapshot shows \<open>web_search\<close> first.
\<close>

theorem snapshot_not_first_started_first:
  "map tool (snapshot restarted_events) = [''web_search'', ''file_search'']
   \<and> map status (snapshot restarted_events) = [''started'', ''started'']
   \<and> map timestamp (snapshot restarted_events) = [''2025-01-01T00:00:03Z'', ''2025-01-01T00:00:02Z'']
   \<and> first_started restarted_events ''file_search'' = Some 1
   \<and> first_started restarted_events ''web_search'' = Some 2"
  by (simp add: snapshot_def sorted_events_partition latestByTool_def restarted_events_def
      is_started_def)

lemma first_event_Some: "n \<in> set (map tool evs) \<Longrightarrow> \<exists>i. first_event evs n = Some i"
  by (induction evs) auto

lemma first_started_is_first_event:
  "enters_started evs n \<Longrightarrow> first_started evs n = first_event evs n"
  by (induction evs) (auto simp: enters_started_def)

lemma set_first_seen: "set (first_seen xs) = set xs"
  by (induction xs) auto

lemma first_seen_by_first_event:
  "sorted_wrt (\<lambda>m n. earlier (first_event evs m) (first_event evs n)) (first_seen (map tool evs))"
proof (induction evs)
  case Nil
  then show ?case by simp
next
  case (Cons e evs)
  let ?rest = "filter (\<lambda>y. y \<noteq> tool e) (first_seen (map tool evs))"
  have head: "earlier (first_event (e # evs) (tool e)) (first_event (e # evs) y)" if "y \<in> set ?rest" for y
  proof -
    have "y \<noteq> tool e" and "y \<in> set (map tool evs)"
      using that by (auto simp: set_first_seen)
    then show ?thesis
      using first_event_Some [of y evs] by auto
  qed
  have "sorted_wrt (\<lambda>m n. earlier (first_event evs m) (first_event evs n)) ?rest"
    using Cons.IH by (rule sorted_wrt_filter)
  then have "sorted_wrt (\<lambda>m n. earlier (first_event (e # evs) m) (first_event (e # evs) n)) ?rest"
  proof (rule sorted_wrt_mono_rel [rotated])
    fix m n
    assume "m \<in> set ?rest" and "n \<in> set ?rest"
      and "earlier (first_event evs m) (first_event evs n)"
    then show "earlier (first_event (e # evs) m) (first_event (e # evs) n)"
      by (cases "first_event evs m"; cases "first_event evs n") auto
  qed
  then show ?case
    using head by simp
qed

lemma started_records_by_first_start:
  assumes "\<forall>n \<in> set (map tool evs). enters_started evs n"
  shows "sorted_wrt (\<lambda>a b. earlier (first_started evs (tool a)) (first_started evs (tool b)))
           (filter is_started (latestByTool evs))"
proof -
  have "sorted_wrt (\<lambda>m n. earlier (first_started evs m) (first_started evs n))
          (first_seen (map tool evs))"
  proof (rule sorted_wrt_mono_rel [OF _ first_seen_by_first_event])
    fix m n
    assume "m \<in> set (first_seen (map tool evs))" and "n \<in> set (first_seen (map tool evs))"
      and "earlier (first_event evs m) (first_event evs n)"
    then have "enters_started evs m" and "enters_started evs n"
      and "earlier (first_event evs m) (first_event evs n)"
      using assms by (auto simp: set_first_seen)
    then show "earlier (first_started evs m) (first_started evs n)"
      by (simp add: first_started_is_first_event)
  qed
  then have "sorted_wrt (\<lambda>a b. earlier (first_started evs (tool a)) (first_started evs (tool b)))
               (latestByTool evs)"
    by (simp add: latestByTool_first_seen [symmetric] sorted_wrt_map)
  then show ?thesis
    by (rule sorted_wrt_filter)
qed

text \<open>
  C4, amended. For every list of tool records the sort puts all \<open>started\<close> records before
  all others, and each group keeps the order the records had (the sort is stable). The
  order the records had is the order in which the tool names first arrived; when the
  first event of every tool is a \<open>started\<close> event, that is the order of the tools' first
  \<open>started\<close> events. The snapshot is computed from the event array each time: the record
  of the tool whose event arrived last is in the front group when that event is
  \<open>started\<close> and in the back group when it is anything else.
\<close>

theorem snapshot_started_first_stable:
  "sorted_events rs = filter is_started rs @ filter (\<lambda>r. \<not> is_started r) rs
   \<and> snapshot evs = filter is_started (latestByTool evs) @ filter (\<lambda>r. \<not> is_started r) (latestByTool evs)
   \<and> map tool (latestByTool evs) = first_seen (map tool evs)
   \<and> ((\<forall>n \<in> set (map tool evs). enters_started evs n) \<longrightarrow>
        sorted_wrt (\<lambda>a b. earlier (first_started evs (tool a)) (first_started evs (tool b)))
          (filter is_started (snapshot evs)))
   \<and> (e \<in> set (filter is_started (latestByTool (evs @ [e])))) = is_started e
   \<and> (e \<in> set (filter (\<lambda>r. \<not> is_started r) (latestByTool (evs @ [e])))) = (\<not> is_started e)"
proof -
  have "filter is_started (snapshot evs) = filter is_started (latestByTool evs)"
    by (simp add: snapshot_def sorted_events_partition)
  then show ?thesis
    using started_records_by_first_start [of evs]
    by (simp add: snapshot_def sorted_events_partition latestByTool_first_seen latestByTool_holds_last)
qed

text \<open>
  An instance with two running tools: on \<open>overlapping_events\<close> every tool enters with a
  \<open>started\<close> event, the snapshot shows the running \<open>file_search\<close> and
  \<open>generate_content\<close> before the completed \<open>web_search\<close>, and the two running tools
  stand in the order of their first \<open>started\<close> events (positions 1 and 2).
\<close>

theorem snapshot_started_first_stable_witness:
  "list_all (enters_started overlapping_events) (map tool overlapping_events)
   \<and> map tool (snapshot overlapping_events) = [''file_search'', ''generate_content'', ''web_search'']
   \<and> map status (snapshot overlapping_events) = [''started'', ''started'', ''completed'']
   \<and> map tool (filter is_started (snapshot overlapping_events)) = [''file_search'', ''generate_content'']
   \<and> first_started overlapping_events ''file_search'' = Some 1
   \<and> first_started overlapping_events ''generate_content'' = Some 2
   \<and> sorted_wrt
        (\<lambda>a b. earlier (first_started overlapping_events (tool a))
                       (first_started overlapping_events (tool b)))
        (filter is_started (snapshot overlapping_events))"
proof -
  have enters: "\<forall>n \<in> set (map tool overlapping_events). enters_started overlapping_events n"
    by (simp add: overlapping_events_def enters_started_def)
  have ordered: "sorted_wrt
        (\<lambda>a b. earlier (first_started overlapping_events (tool a))
                       (first_started overlapping_events (tool b)))
        (filter is_started (snapshot overlapping_events))"
    using snapshot_started_first_stable
      [of "[]" overlapping_events
          "\<lparr>tool = ''web_search'', status = ''completed'', timestamp = ''t4'', message = None\<rparr>"]
      enters
    by blast
  have shown: "snapshot overlapping_events =
      [\<lparr>tool = ''file_search'', status = ''started'', timestamp = ''t2'', message = None\<rparr>,
       \<lparr>tool = ''generate_content'', status = ''started'', timestamp = ''t3'', message = None\<rparr>,
       \<lparr>tool = ''web_search'', status = ''completed'', timestamp = ''t4'', message = None\<rparr>]"
    by (simp add: snapshot_def sorted_events_partition latestByTool_def overlapping_events_def
        is_started_def)
  have firsts: "first_started overlapping_events ''file_search'' = Some 1"
    "first_started overlapping_events ''generate_content'' = Some 2"
    by (simp_all add: overlapping_events_def)
  have "list_all (enters_started overlapping_events) (map tool overlapping_events)"
    using enters by (simp add: list_all_iff)
  then show ?thesis
    using ordered firsts by (simp add: shown is_started_def)
qed

section \<open>toggleLocale cycles through ALL_LOCALES\<close>

lemma indexOf_nth:
  "distinct xs \<Longrightarrow> i < length xs \<Longrightarrow> indexOf xs (xs ! i) = int i"
proof (induction xs arbitrary: i)
  case Nil
  then show ?case by simp
next
  case (Cons x xs)
  show ?case
  proof (cases i)
    case 0
    then show ?thesis by simp
  next
    case (Suc j)
    then have "xs ! j \<in> set xs" and "indexOf xs (xs ! j) = int j"
      using Cons by auto
    then show ?thesis
      using Suc Cons.prems by (auto simp: Let_def)
  qed
qed

lemma toggleLocale_nth:
  assumes "distinct ALL_LOCALES" and "i < length ALL_LOCALES"
  shows "toggleLocale ALL_LOCALES (ALL_LOCALES ! i)
           = Some (ALL_LOCALES ! ((i + 1) mod length ALL_LOCALES))"
proof -
  have "nat ((int i + 1) mod int (length ALL_LOCALES)) = (i + 1) mod length ALL_LOCALES"
    by (metis nat_int of_nat_1 of_nat_add zmod_int)
  moreover have "ALL_LOCALES \<noteq> []"
    using assms by (cases ALL_LOCALES) simp_all
  ultimately show ?thesis
    using assms by (simp add: toggleLocale_def indexOf_nth)
qed

lemma toggle_times_nth:
  "distinct ALL_LOCALES \<Longrightarrow> i < length ALL_LOCALES \<Longrightarrow>
   toggle_times ALL_LOCALES n (ALL_LOCALES ! i)
     = Some (ALL_LOCALES ! ((i + n) mod length ALL_LOCALES))"
proof (induction n arbitrary: i)
  case 0
  then show ?case by simp
next
  case (Suc n)
  have "0 < length ALL_LOCALES"
    using Suc.prems by (cases ALL_LOCALES) simp_all
  then have less: "(i + 1) mod length ALL_LOCALES < length ALL_LOCALES"
    by (rule mod_less_divisor)
  have "((i + 1) mod length ALL_LOCALES + n) mod length ALL_LOCALES
          = (i + Suc n) mod length ALL_LOCALES"
    by (simp add: mod_add_left_eq)
  then show ?case
    using Suc.IH [OF Suc.prems(1) less] Suc.prems by (simp add: toggleLocale_nth)
qed

text \<open>
  \<open>indexOf\<close> finds the first occurrence, so the cycle needs a list that names each locale
  once (the header component uses the locales of \<open>ALL_LOCALES\<close> as React keys, which must
  be unique). In a list with a repeated entry the locales after the repetition are
  never reached, and a session that starts on one does not come back to it.
\<close>

lemma toggleLocale_repeated_entry:
  "toggle_times [''en'', ''ja'', ''en'', ''fr''] 4 ''fr'' = Some ''ja''"
  by (simp add: numeral_eq_Suc toggleLocale_def)

text \<open>
  C10. \<open>ALL_LOCALES\<close> lists each locale once. From the locale at position \<open>i\<close> of
  \<open>ALL_LOCALES\<close> one call of \<open>toggleLocale\<close> gives the locale at position \<open>i + 1\<close>, and the
  first one after the last; \<open>ALL_LOCALES.length\<close> calls give the starting locale back.
\<close>

theorem toggleLocale_cycles:
  assumes "distinct ALL_LOCALES" and "i < length ALL_LOCALES"
  shows "toggleLocale ALL_LOCALES (ALL_LOCALES ! i)
           = Some (ALL_LOCALES ! ((i + 1) mod length ALL_LOCALES))
         \<and> toggle_times ALL_LOCALES (length ALL_LOCALES) (ALL_LOCALES ! i)
           = Some (ALL_LOCALES ! i)"
  using assms by (simp add: toggleLocale_nth toggle_times_nth)

theorem toggleLocale_cycles_witness:
  "distinct [''en'', ''ja''] \<and> (1::nat) < length [''en'', ''ja'']
   \<and> toggleLocale [''en'', ''ja''] ''ja'' = Some ''en''
   \<and> toggle_times [''en'', ''ja''] 2 ''ja'' = Some ''ja''"
  using toggleLocale_cycles [of "[''en'', ''ja'']" 1] by (simp add: numeral_2_eq_2 toggleLocale_def)

section \<open>The tool-display lookup\<close>

lemma cfg_of_unknown:
  "name \<notin> set (map fst TOOL_CONFIG) \<Longrightarrow> name \<notin> set Object_prototype \<Longrightarrow>
   cfg_of name = Config DEFAULT_CONFIG"
  by (simp add: cfg_of_def get_property_def map_of_eq_None_iff [THEN iffD2])

lemma render_pill_off_prototype:
  "tool ev \<notin> set Object_prototype \<Longrightarrow> \<exists>p. render_pill ev = Inr p"
  by (simp add: render_pill_def cfg_of_def get_property_def split: option.split)

lemma render_pills_off_prototype:
  "\<forall>ev \<in> set evs. tool ev \<notin> set Object_prototype \<Longrightarrow>
   \<exists>ps. render_pills evs = Inr ps \<and> length ps = length evs"
proof (induction evs)
  case Nil
  then show ?case by simp
next
  case (Cons ev evs)
  then obtain p ps where "render_pill ev = Inr p" and "render_pills evs = Inr ps"
    and "length ps = length evs"
    using render_pill_off_prototype [of ev] by auto
  then show ?case by simp
qed

text \<open>
  C9 at the tool name \<open>constructor\<close>, which is none of the five configured names: the
  lookup finds the inherited \<open>Object.prototype.constructor\<close>, the fallback to
  \<open>DEFAULT_CONFIG\<close> is not taken, and the pill bar fails to render.
\<close>

theorem tool_lookup_inherited_name:
  "cfg_of ''constructor'' = Inherited ''constructor''
   \<and> render_pill \<lparr>tool = ''constructor'', status = ''started'', timestamp = ''t1'', message = None\<rparr>
       = Inl ElementTypeInvalid
   \<and> render_pills (snapshot [\<lparr>tool = ''constructor'', status = ''started'', timestamp = ''t1'', message = None\<rparr>])
       = Inl ElementTypeInvalid"
  by (simp add: cfg_of_def get_property_def TOOL_CONFIG_def Object_prototype_def render_pill_def
      snapshot_def sorted_events_partition latestByTool_def is_started_def)

section \<open>The decoder on the inputs of its test file\<close>

text \<open>
  The inputs of \<open>api.test.ts\<close> (plain text, the done and error signals, tool-event and
  reasoning markers, a reasoning envelope, a choices envelope, the empty and the
  whitespace-only chunk, a marker followed by text, a malformed tool event, two tool
  events) give the events the tests expect.
\<close>

lemma decoder_agrees_with_the_tests:
  \<open>events_of [''Hello world''] = [TextDelta ''Hello world'']\<close>
  \<open>events_of [''{"type":"done","thread_id":"abc-123"}''] = [Done (Some (JString ''abc-123''))]\<close>
  \<open>events_of [''{"error":"Rate limit exceeded"}''] = [Error (JString ''Rate limit exceeded'')]\<close>
  \<open>events_of [''__TOOL_EVENT__{"type":"tool_event","tool":"web_search","status":"started","timestamp":"2025-01-01T00:00:00Z"}__END_TOOL_EVENT__'']
     = [ToolEvent \<lparr>tool = ''web_search'', status = ''started'', timestamp = ''2025-01-01T00:00:00Z'', message = None\<rparr>]\<close>
  \<open>events_of [''__REASONING_REPLACE__Step 1: Analyze the topic__END_REASONING_REPLACE__'']
     = [ReasoningDelta ''Step 1: Analyze the topic'' True]\<close>
  \<open>events_of [''{"type":"reasoning_update","reasoning":"Thinking about the topic..."}'']
     = [ReasoningDelta ''Thinking about the topic...'' False]\<close>
  \<open>events_of [''{"choices":[{"messages":[{"role":"assistant","content":"Generated content here"}]}],"thread_id":"thread-1"}'']
     = [ContentSnapshot ''Generated content here'' (Some (JString ''thread-1''))]\<close>
  \<open>events_of [[]] = []\<close>
  \<open>events_of [''   ''] = []\<close>
  \<open>events_of [''__TOOL_EVENT__{"type":"tool_event","tool":"generate_content","status":"completed","timestamp":"2025-01-01T00:00:00Z"}__END_TOOL_EVENT__some remaining text'']
     = [ToolEvent \<lparr>tool = ''generate_content'', status = ''completed'', timestamp = ''2025-01-01T00:00:00Z'', message = None\<rparr>,
        TextDelta ''some remaining text'']\<close>
  \<open>events_of [''__TOOL_EVENT__{invalid json}__END_TOOL_EVENT__''] = [Ignored]\<close>
  \<open>events_of [''__TOOL_EVENT__{"type":"tool_event","tool":"web_search","status":"started","timestamp":"t1"}__END_TOOL_EVENT____TOOL_EVENT__{"type":"tool_event","tool":"web_search","status":"completed","timestamp":"t2"}__END_TOOL_EVENT__'']
     = [ToolEvent \<lparr>tool = ''web_search'', status = ''started'', timestamp = ''t1'', message = None\<rparr>,
        ToolEvent \<lparr>tool = ''web_search'', status = ''completed'', timestamp = ''t2'', message = None\<rparr>]\<close>
  by (simp_all add: events_of_def classify_simps decode_simps parse_simps)

section \<open>Fragmentation of the stream\<close>

lemma prefix_append_long: "length p \<le> length s \<Longrightarrow> prefix p (s @ t) = prefix p s"
  by (metis prefix_length_prefix prefix_prefix prefix_order.refl)

lemma split_on_unfold:
  "s \<noteq> [] \<Longrightarrow>
   split_on p s =
     (if prefix p s then Some ([], drop (length p) s)
      else map_option (\<lambda>(pre, rest). (hd s # pre, rest)) (split_on p (tl s)))"
  by (cases s) simp_all

lemma next_marker_unfold:
  "s \<noteq> [] \<Longrightarrow>
   next_marker s =
     (if prefix (open_delim ToolEventMarker) s
      then Some ([], ToolEventMarker, drop (length (open_delim ToolEventMarker)) s)
      else if prefix (open_delim ReasoningReplaceMarker) s
      then Some ([], ReasoningReplaceMarker, drop (length (open_delim ReasoningReplaceMarker)) s)
      else map_option (\<lambda>(pre, k, rest). (hd s # pre, k, rest)) (next_marker (tl s)))"
  by (cases s) (simp_all del: open_delim.simps)

text \<open>A closing delimiter found in the buffer is found at the same place once more text
  has arrived.\<close>

lemma split_on_append:
  "p \<noteq> [] \<Longrightarrow> split_on p s = Some (pre, rest) \<Longrightarrow> split_on p (s @ t) = Some (pre, rest @ t)"
proof (induction s arbitrary: pre)
  case Nil
  then show ?case by simp
next
  case (Cons c cs)
  define s where "s = c # cs"
  have s: "s \<noteq> []" "s @ t \<noteq> []" "tl s = cs" "tl (s @ t) = cs @ t" "hd (s @ t) = c" "hd s = c"
    by (simp_all add: s_def)
  have found: "split_on p s = Some (pre, rest)"
    using Cons.prems by (simp add: s_def)
  show ?case
  proof (cases "prefix p s")
    case True
    then have "prefix p (s @ t)" by simp
    then have "split_on p (s @ t) = Some ([], drop (length p) s @ t)"
      using prefix_length_le [OF True] by (simp add: split_on_unfold [OF s(2)])
    moreover have "pre = []" "rest = drop (length p) s"
      using found True by (simp_all add: split_on_unfold [OF s(1)])
    ultimately show ?thesis by (simp add: s_def)
  next
    case False
    then obtain pre' where tail: "split_on p cs = Some (pre', rest)" and pre: "pre = c # pre'"
      using found by (auto simp: split_on_unfold [OF s(1)] s)
    have "length p \<le> length s"
      using split_on_decomp [OF tail] by (simp add: s_def)
    then have "\<not> prefix p (s @ t)"
      using False by (simp add: prefix_append_long)
    then have "split_on p (s @ t) = Some (pre, rest @ t)"
      using Cons.IH [OF Cons.prems(1) tail] pre by (simp add: split_on_unfold [OF s(2)] s)
    then show ?thesis by (simp add: s_def)
  qed
qed

lemma next_marker_mono: "next_marker s \<noteq> None \<Longrightarrow> next_marker (s @ t) \<noteq> None"
  by (induction s) (auto split: if_splits)

text \<open>Neither opening delimiter holds an opening delimiter after its first character.\<close>

lemma next_marker_tl_open: "next_marker (tl (open_delim k)) = None"
  by (cases k) simp_all

lemma not_prefix_open_append:
  assumes "\<not> prefix (open_delim k) s" and "next_marker (tl s) \<noteq> None"
  shows "\<not> prefix (open_delim k) (s @ t)"
proof
  assume "prefix (open_delim k) (s @ t)"
  then obtain us where us: "open_delim k = s @ us"
    using assms(1) by (auto simp: prefix_append)
  have "s \<noteq> []"
    using assms(2) by auto
  then have "tl (open_delim k) = tl s @ us"
    using us by simp
  then have "next_marker (tl (open_delim k)) \<noteq> None"
    using next_marker_mono [OF assms(2)] by simp
  then show False
    by (simp add: next_marker_tl_open)
qed

text \<open>The first opening delimiter of the buffer stays the first once more text has
  arrived.\<close>

lemma next_marker_append:
  "next_marker s = Some (pre, k, rest) \<Longrightarrow> next_marker (s @ t) = Some (pre, k, rest @ t)"
proof (induction s arbitrary: pre)
  case Nil
  then show ?case by simp
next
  case (Cons c cs)
  define s where "s = c # cs"
  have s: "s \<noteq> []" "s @ t \<noteq> []" "tl s = cs" "tl (s @ t) = cs @ t" "hd (s @ t) = c" "hd s = c"
    by (simp_all add: s_def)
  have found: "next_marker s = Some (pre, k, rest)"
    using Cons.prems by (simp add: s_def)
  let ?T = "open_delim ToolEventMarker" and ?R = "open_delim ReasoningReplaceMarker"
  have goal: "next_marker (s @ t) = Some (pre, k, rest @ t)"
  proof (cases "prefix ?T s")
    case True
    then have "prefix ?T (s @ t)" by simp
    then have "next_marker (s @ t) = Some ([], ToolEventMarker, drop (length ?T) s @ t)"
      using prefix_length_le [OF True]
      by (simp add: next_marker_unfold [OF s(2)] del: open_delim.simps)
    moreover have "pre = []" "k = ToolEventMarker" "rest = drop (length ?T) s"
      using found True by (simp_all add: next_marker_unfold [OF s(1)] del: open_delim.simps)
    ultimately show ?thesis by simp
  next
    case noTool: False
    show ?thesis
    proof (cases "prefix ?R s")
      case True
      then have "length ?T \<le> length s"
        using prefix_length_le [OF True] by simp
      then have noTool': "\<not> prefix ?T (s @ t)"
        using noTool by (simp add: prefix_append_long del: open_delim.simps)
      have "prefix ?R (s @ t)"
        using True by simp
      then have "next_marker (s @ t) = Some ([], ReasoningReplaceMarker, drop (length ?R) s @ t)"
        using noTool' prefix_length_le [OF True]
        by (simp add: next_marker_unfold [OF s(2)] del: open_delim.simps)
      moreover have "pre = []" "k = ReasoningReplaceMarker" "rest = drop (length ?R) s"
        using found True noTool by (simp_all add: next_marker_unfold [OF s(1)] del: open_delim.simps)
      ultimately show ?thesis by simp
    next
      case noReason: False
      then obtain pre' where tail: "next_marker cs = Some (pre', k, rest)" and pre: "pre = c # pre'"
        using noTool found by (auto simp: next_marker_unfold [OF s(1)] s simp del: open_delim.simps)
      have more: "next_marker (tl s) \<noteq> None"
        using tail s by simp
      have "\<not> prefix ?T (s @ t)"
        using noTool more by (rule not_prefix_open_append)
      moreover have "\<not> prefix ?R (s @ t)"
        using noReason more by (rule not_prefix_open_append)
      ultimately have "\<not> prefix ?T (s @ t)" and "\<not> prefix ?R (s @ t)"
        by blast+
      then show ?thesis
        using Cons.IH [OF tail] pre by (simp add: next_marker_unfold [OF s(2)] s del: open_delim.simps)
    qed
  qed
  then show ?case by (simp add: s_def)
qed

lemma next_marker_open: "next_marker (open_delim k @ x) = Some ([], k, x)"
  by (cases k) simp_all

lemma close_delim_nonempty: "close_delim k \<noteq> []"
  by (cases k) simp_all

lemma scan_open:
  "scan (open_delim k @ rest) =
     (case split_on (close_delim k) rest of
        None \<Rightarrow> ([], open_delim k @ rest)
      | Some (payload, rest') \<Rightarrow>
          (Marked k payload # fst (scan rest'), snd (scan rest')))"
  by (subst scan.simps) (simp add: next_marker_open text_frames_def split: option.split prod.split)

text \<open>
  When the scan of a buffer ends with a remainder, the scan of the buffer with more text
  appended gives the same frames, followed by the frames of the scan of the remainder
  with that text.
\<close>

lemma scan_append:
  "snd (scan s) \<noteq> [] \<Longrightarrow>
   scan (s @ t) = (fst (scan s) @ fst (scan (snd (scan s) @ t)), snd (scan (snd (scan s) @ t)))"
proof (induction s rule: scan.induct)
  case (1 s)
  show ?case
  proof (cases "next_marker s")
    case None
    then have "scan s = ([], s)"
      using "1.prems" by (subst scan.simps, subst (asm) scan.simps) (simp split: if_splits)
    then show ?thesis by simp
  next
    case (Some triple)
    then obtain pre k rest where marker: "next_marker s = Some (pre, k, rest)"
      by (cases triple) auto
    have marker': "next_marker (s @ t) = Some (pre, k, rest @ t)"
      using marker by (rule next_marker_append)
    show ?thesis
    proof (cases "split_on (close_delim k) rest")
      case None
      then have s: "scan s = (text_frames pre, open_delim k @ rest)"
        using marker by (subst scan.simps) simp
      have "scan (s @ t) =
              (text_frames pre @ fst (scan (open_delim k @ rest @ t)),
               snd (scan (open_delim k @ rest @ t)))"
        using marker'
        by (subst scan.simps) (simp add: scan_open split: option.split prod.split)
      then show ?thesis
        using s by simp
    next
      case (Some pair)
      then obtain payload rest' where close: "split_on (close_delim k) rest = Some (payload, rest')"
        by (cases pair) auto
      have close': "split_on (close_delim k) (rest @ t) = Some (payload, rest' @ t)"
        using close by (rule split_on_append [OF close_delim_nonempty])
      have s: "scan s = (text_frames pre @ Marked k payload # fst (scan rest'), snd (scan rest'))"
        using marker close by (subst scan.simps) (simp split: prod.split)
      then have held: "snd (scan rest') \<noteq> []"
        using "1.prems" by simp
      have IH: "scan (rest' @ t) =
                  (fst (scan rest') @ fst (scan (snd (scan rest') @ t)),
                   snd (scan (snd (scan rest') @ t)))"
        using "1.IH" [OF marker refl refl close refl held] .
      have "scan (s @ t) =
              (text_frames pre @ Marked k payload # fst (scan (rest' @ t)), snd (scan (rest' @ t)))"
        using marker' close' by (subst scan.simps) (simp split: prod.split)
      then show ?thesis
        using s IH by simp
    qed
  qed
qed

text \<open>
  The classifier holds a remainder whenever the last opening delimiter of the buffer has
  no closing delimiter after it: the remainder is the text from that delimiter on.
\<close>

lemma remainder_of_unmatched_marker:
  assumes "next_marker s = Some (pre, k, rest)" and "split_on (close_delim k) rest = None"
  shows "scan s = (text_frames pre, open_delim k @ rest) \<and> snd (scan s) \<noteq> []"
proof -
  have "scan s = (text_frames pre, open_delim k @ rest)"
    using assms by (subst scan.simps) simp
  then show ?thesis
    by (cases k) simp_all
qed

text \<open>Whitespace-only text, and opening delimiters further on in the stream.\<close>

lemma trim_empty_iff: "trim s = [] \<longleftrightarrow> list_all is_space s"
proof
  assume "trim s = []"
  then have all: "\<forall>x \<in> set (dropWhile is_space s). is_space x"
    by (simp add: trim_def dropWhile_eq_Nil_conv)
  have "dropWhile is_space s = []"
  proof (rule ccontr)
    assume "dropWhile is_space s \<noteq> []"
    then have "\<not> is_space (hd (dropWhile is_space s))" and "hd (dropWhile is_space s) \<in> set (dropWhile is_space s)"
      by (simp_all add: hd_dropWhile)
    then show False using all by blast
  qed
  then have "\<forall>x \<in> set s. is_space x"
    by (simp only: dropWhile_eq_Nil_conv)
  then show "list_all is_space s"
    by (simp add: list_all_iff)
next
  assume "list_all is_space s"
  then show "trim s = []"
    by (auto simp: trim_def list_all_iff dest: set_dropWhileD)
qed

lemma deferred_blank: "deferred s \<Longrightarrow> trim s = []"
  by (auto simp: deferred_def trim_empty_iff list_all_iff is_space_def)

lemma next_marker_suffix: "next_marker b \<noteq> None \<Longrightarrow> next_marker (a @ b) \<noteq> None"
  by (induction a) (auto split: if_splits)

text \<open>Merging the runs of \<open>TextDelta\<close> events, piece by piece.\<close>

lemma merge_text_join:
  "merge_text (xs @ TextDelta a # TextDelta c # ys) = merge_text (xs @ TextDelta (a @ c) # ys)"
  apply (induction xs rule: merge_text.induct)
                      apply simp_all
  subgoal for e by (cases e) simp_all
  done

lemma merge_text_prefix:
  "merge_text (xs @ ys) = merge_text (merge_text xs @ ys)"
  by (induction xs rule: merge_text.induct) simp_all

text \<open>
  An opening delimiter left in the text after the last complete frame has no closing
  delimiter, and the scan of a stream is the frames up to that text, followed by the
  scan of that text with whatever arrives next.
\<close>

lemma after_frames_open:
  "next_marker (after_frames p) = Some (pre, k, rest) \<Longrightarrow> split_on (close_delim k) rest = None"
proof (induction p rule: after_frames.induct)
  case (1 s)
  show ?case
  proof (cases "next_marker s")
    case None
    then have "after_frames s = s"
      by (subst after_frames.simps) simp
    then show ?thesis
      using None "1.prems" by simp
  next
    case (Some triple)
    then obtain pre0 k0 rest0 where marker: "next_marker s = Some (pre0, k0, rest0)"
      by (cases triple) auto
    show ?thesis
    proof (cases "split_on (close_delim k0) rest0")
      case None
      then have "after_frames s = s"
        using marker by (subst after_frames.simps) simp
      then show ?thesis
        using None marker "1.prems" by simp
    next
      case (Some pair)
      then obtain payload rest' where close: "split_on (close_delim k0) rest0 = Some (payload, rest')"
        by (cases pair) auto
      have "after_frames s = after_frames rest'"
        using marker close by (subst after_frames.simps) simp
      then show ?thesis
        using "1.IH" [OF marker refl refl close refl] "1.prems" by simp
    qed
  qed
qed

lemma scan_after_frames:
  "\<exists>done. \<forall>b. scan (p @ b) =
       (done @ fst (scan (after_frames p @ b)), snd (scan (after_frames p @ b)))"
proof (induction p rule: after_frames.induct)
  case (1 s)
  show ?case
  proof (cases "next_marker s")
    case None
    then have "after_frames s = s"
      by (subst after_frames.simps) simp
    then have "\<forall>b. scan (s @ b) = ([] @ fst (scan (after_frames s @ b)), snd (scan (after_frames s @ b)))"
      by simp
    then show ?thesis by blast
  next
    case (Some triple)
    then obtain pre k rest where marker: "next_marker s = Some (pre, k, rest)"
      by (cases triple) auto
    show ?thesis
    proof (cases "split_on (close_delim k) rest")
      case None
      then have "after_frames s = s"
        using marker by (subst after_frames.simps) simp
      then have "\<forall>b. scan (s @ b) = ([] @ fst (scan (after_frames s @ b)), snd (scan (after_frames s @ b)))"
        by simp
      then show ?thesis by blast
    next
      case (Some pair)
      then obtain payload rest' where close: "split_on (close_delim k) rest = Some (payload, rest')"
        by (cases pair) auto
      have after: "after_frames s = after_frames rest'"
        using marker close by (subst after_frames.simps) simp
      obtain done0 where IH: "\<And>b. scan (rest' @ b) =
          (done0 @ fst (scan (after_frames rest' @ b)), snd (scan (after_frames rest' @ b)))"
        using "1.IH" [OF marker refl refl close refl] by blast
      have "scan (s @ b) =
              ((text_frames pre @ Marked k payload # done0) @ fst (scan (after_frames s @ b)),
               snd (scan (after_frames s @ b)))" for b
      proof -
        have marker': "next_marker (s @ b) = Some (pre, k, rest @ b)"
          using marker by (rule next_marker_append)
        have close': "split_on (close_delim k) (rest @ b) = Some (payload, rest' @ b)"
          using close by (rule split_on_append [OF close_delim_nonempty])
        have "scan (s @ b) =
                (text_frames pre @ Marked k payload # fst (scan (rest' @ b)), snd (scan (rest' @ b)))"
          using marker' close' by (subst scan.simps) (simp split: prod.split)
        then show ?thesis
          using IH [of b] after by simp
      qed
      then show ?thesis by blast
    qed
  qed
qed

text \<open>Text cut in two where no opening delimiter straddles the cut.\<close>

lemma next_marker_past:
  "next_marker (u @ b) = Some (pre, k, rest) \<Longrightarrow> length u \<le> length pre \<Longrightarrow>
   \<exists>l. pre = u @ l \<and> next_marker b = Some (l, k, rest)"
proof (induction u arbitrary: pre)
  case Nil
  then show ?case by simp
next
  case (Cons c us)
  define s where "s = (c # us) @ b"
  have s: "s \<noteq> []" "tl s = us @ b" "hd s = c"
    by (simp_all add: s_def)
  have found: "next_marker s = Some (pre, k, rest)"
    using Cons.prems(1) by (simp add: s_def)
  have "pre \<noteq> []"
    using Cons.prems(2) by auto
  then obtain pre' where tail: "next_marker (us @ b) = Some (pre', k, rest)" and pre: "pre = c # pre'"
    using found by (auto simp: next_marker_unfold [OF s(1)] s simp del: open_delim.simps split: if_splits)
  have "length us \<le> length pre'"
    using Cons.prems(2) pre by simp
  then obtain l where "pre' = us @ l" and "next_marker b = Some (l, k, rest)"
    using Cons.IH [OF tail] by blast
  then show ?case
    using pre by simp
qed

lemma deferred_append: "u \<noteq> [] \<Longrightarrow> deferred (u @ b) \<Longrightarrow> deferred u"
  by (simp add: deferred_def)

lemma text_cut:
  assumes none: "next_marker u = None" and ne: "u \<noteq> []" and nd: "\<not> deferred u"
    and ns: "\<not> straddles u b"
    and ok: "lead b = [] \<or> plain (lead b)"
  shows "\<exists>frames. scan b = (text_frames (lead b) @ frames, snd (scan b))
           \<and> scan (u @ b) = (text_frames (u @ lead b) @ frames, snd (scan b))"
proof (cases "next_marker (u @ b)")
  case None
  then have nb: "next_marker b = None"
    using next_marker_suffix [of b u] by (cases "next_marker b") auto
  then have lead: "lead b = b"
    by (simp add: lead_def)
  have "\<not> deferred (u @ b)"
    using nd ne deferred_append by blast
  then have whole: "scan (u @ b) = ([text_frame (u @ b)], [])"
    using None ne by (subst scan.simps) simp
  show ?thesis
  proof (cases "b = []")
    case True
    then have "scan b = ([], [])"
      by (subst scan.simps) simp
    then show ?thesis
      using whole True lead ne by (simp add: text_frames_def)
  next
    case False
    then have "plain b"
      using ok lead by simp
    then have "\<not> deferred b"
      using deferred_blank [of b] by (auto simp: plain_def)
    then have "scan b = ([text_frame b], [])"
      using nb False by (subst scan.simps) simp
    then show ?thesis
      using whole lead False ne by (simp add: text_frames_def)
  qed
next
  case (Some triple)
  then obtain pre k rest where marker: "next_marker (u @ b) = Some (pre, k, rest)"
    by (cases triple) auto
  then have "length u \<le> length pre"
    using ns by (simp add: straddles_def)
  then obtain l where pre: "pre = u @ l" and mb: "next_marker b = Some (l, k, rest)"
    using next_marker_past [OF marker] by blast
  have lead: "lead b = l"
    using mb by (simp add: lead_def)
  show ?thesis
  proof (cases "split_on (close_delim k) rest")
    case None
    have "scan b = (text_frames l, open_delim k @ rest)"
      using mb None by (subst scan.simps) simp
    moreover have "scan (u @ b) = (text_frames (u @ l), open_delim k @ rest)"
      using marker None pre by (subst scan.simps) simp
    ultimately show ?thesis
      using lead by simp
  next
    case (Some pair)
    then obtain payload rest' where close: "split_on (close_delim k) rest = Some (payload, rest')"
      by (cases pair) auto
    have "scan b = (text_frames l @ Marked k payload # fst (scan rest'), snd (scan rest'))"
      using mb close by (subst scan.simps) (simp split: prod.split)
    moreover have "scan (u @ b) = (text_frames (u @ l) @ Marked k payload # fst (scan rest'), snd (scan rest'))"
      using marker close pre by (subst scan.simps) (simp split: prod.split)
    ultimately show ?thesis
      using lead by simp
  qed
qed

lemma trim_append_nonblank: "trim u \<noteq> [] \<Longrightarrow> trim (u @ l) \<noteq> []"
  by (auto simp: trim_empty_iff list_all_iff)

lemma parse_text_frame_plain: "plain x \<Longrightarrow> parse (text_frame x) = TextDelta x"
  by (simp add: plain_def text_frame_def)

lemma scan_empty: "scan [] = ([], [])"
  by (subst scan.simps) simp

text \<open>
  One more chunk after a cut that leaves the frames whole: scanning the stream so far
  with the chunk gives what the scan of the stream so far gave, followed by the scan of
  its remainder with the chunk.
\<close>

lemma cut_step:
  assumes "cut_ok p b"
  shows "snd (scan (p @ b)) = snd (scan (snd (scan p) @ b))
     \<and> merge_text (map parse (fst (scan (p @ b))))
         = merge_text (map parse (fst (scan p) @ fst (scan (snd (scan p) @ b))))"
proof (cases "snd (scan p) = []")
  case False
  then show ?thesis
    using scan_append [of p b] by simp
next
  case True
  define u where "u = after_frames p"
  obtain done0 where frames: "\<And>b. scan (p @ b) = (done0 @ fst (scan (u @ b)), snd (scan (u @ b)))"
    using scan_after_frames [of p] unfolding u_def by blast
  have p: "scan p = (done0 @ fst (scan u), snd (scan u))"
    using frames [of "[]"] by simp
  then have held: "snd (scan u) = []"
    using True by simp
  have none: "next_marker u = None"
  proof (cases "next_marker u")
    case None
    then show ?thesis .
  next
    case (Some triple)
    then obtain pre k rest where marker: "next_marker u = Some (pre, k, rest)"
      by (cases triple) auto
    then have "split_on (close_delim k) rest = None"
      unfolding u_def by (rule after_frames_open)
    then have "snd (scan u) \<noteq> []"
      using remainder_of_unmatched_marker [OF marker] by blast
    then show ?thesis
      using held by simp
  qed
  show ?thesis
  proof (cases "u = []")
    case True
    then show ?thesis
      using frames [of b] p by (simp add: scan_empty)
  next
    case False
    have nd: "\<not> deferred u"
    proof
      assume "deferred u"
      then have "scan u = ([], u)"
        using none False by (subst scan.simps) simp
      then show False
        using held False by simp
    qed
    have u: "scan u = ([text_frame u], [])"
      using none False nd by (subst scan.simps) simp
    have ok: "\<not> straddles u b"
      and pieces: "lead b = [] \<or> (plain u \<and> plain (lead b) \<and> \<not> looks_like_json (trim (u @ lead b)))"
      using assms False none nd by (simp_all add: cut_ok_def u_def [symmetric] Let_def)
    from pieces have "lead b = [] \<or> plain (lead b)"
      by blast
    then obtain frames' where b: "scan b = (text_frames (lead b) @ frames', snd (scan b))"
      and ub: "scan (u @ b) = (text_frames (u @ lead b) @ frames', snd (scan b))"
      using text_cut [OF none False nd ok] by blast
    have rem: "snd (scan (p @ b)) = snd (scan (snd (scan p) @ b))"
      using frames [of b] ub True by simp
    have lhs: "fst (scan (p @ b)) = done0 @ text_frames (u @ lead b) @ frames'"
      using frames [of b] ub by simp
    have rhs: "fst (scan p) @ fst (scan (snd (scan p) @ b))
                 = done0 @ text_frame u # text_frames (lead b) @ frames'"
      using p u True b by (simp add: prod_eq_iff)
    have "merge_text (map parse (done0 @ text_frames (u @ lead b) @ frames'))
            = merge_text (map parse (done0 @ text_frame u # text_frames (lead b) @ frames'))"
    proof (cases "lead b = []")
      case True
      then show ?thesis
        using False by (simp add: text_frames_def)
    next
      case nonempty: False
      then have pu: "plain u" and pl: "plain (lead b)" and nj: "\<not> looks_like_json (trim (u @ lead b))"
        using pieces by blast+
      have "trim (u @ lead b) \<noteq> []"
        using pu by (simp add: plain_def trim_append_nonblank)
      then have "parse (text_frame (u @ lead b)) = TextDelta (u @ lead b)"
        using nj by (simp add: text_frame_def)
      then show ?thesis
        using nonempty False pu pl
        by (simp add: text_frames_def parse_text_frame_plain merge_text_join)
    qed
    then show ?thesis
      using rem lhs rhs by simp
  qed
qed

text \<open>The chunks of a stream, one after the other.\<close>

lemma classify_all_snoc:
  "classify_all t (chunks @ [b]) =
     (fst (classify_all t chunks) @ fst (classify (snd (classify_all t chunks)) b),
      snd (classify (snd (classify_all t chunks)) b))"
  by (induction chunks arbitrary: t) (simp_all add: case_prod_unfold)

lemma cuts_ok_snoc: "cuts_ok p (chunks @ [b]) = (cuts_ok p chunks \<and> cut_ok (p @ concat chunks) b)"
  by (induction chunks arbitrary: p) auto

lemma chunks_as_whole:
  "cuts_ok [] chunks \<Longrightarrow>
   snd (classify_all [] chunks) = snd (scan (concat chunks))
   \<and> merge_text (map parse (fst (classify_all [] chunks)))
       = merge_text (map parse (fst (scan (concat chunks))))"
proof (induction chunks rule: rev_induct)
  case Nil
  then show ?case by (simp add: scan_empty)
next
  case (snoc b chunks)
  let ?p = "concat chunks"
  have ok: "cuts_ok [] chunks" and cut: "cut_ok ?p b"
    using snoc.prems by (simp_all add: cuts_ok_snoc)
  have rem: "snd (classify_all [] chunks) = snd (scan ?p)"
    and ev: "merge_text (map parse (fst (classify_all [] chunks)))
               = merge_text (map parse (fst (scan ?p)))"
    using snoc.IH [OF ok] by simp_all
  have step_rem: "snd (scan (?p @ b)) = snd (scan (snd (scan ?p) @ b))"
    and step_ev: "merge_text (map parse (fst (scan (?p @ b))))
         = merge_text (map parse (fst (scan ?p) @ fst (scan (snd (scan ?p) @ b))))"
    using cut_step [OF cut] by simp_all
  let ?new = "map parse (fst (scan (snd (scan ?p) @ b)))"
  have "merge_text (map parse (fst (classify_all [] (chunks @ [b]))))
          = merge_text (map parse (fst (classify_all [] chunks)) @ ?new)"
    by (simp add: classify_all_snoc classify_def rem)
  also have "\<dots> = merge_text (merge_text (map parse (fst (classify_all [] chunks))) @ ?new)"
    by (rule merge_text_prefix)
  also have "\<dots> = merge_text (merge_text (map parse (fst (scan ?p))) @ ?new)"
    by (simp only: ev)
  also have "\<dots> = merge_text (map parse (fst (scan ?p)) @ ?new)"
    by (rule merge_text_prefix [symmetric])
  also have "\<dots> = merge_text (map parse (fst (scan (?p @ b))))"
    using step_ev by simp
  finally have "merge_text (map parse (fst (classify_all [] (chunks @ [b]))))
                  = merge_text (map parse (fst (scan (concat (chunks @ [b])))))"
    by simp
  moreover have "snd (classify_all [] (chunks @ [b])) = snd (scan (concat (chunks @ [b])))"
    using step_rem by (simp add: classify_all_snoc classify_def rem)
  ultimately show ?case by blast
qed

lemma held_from_marker:
  assumes "next_marker (after_frames p) = Some (pre, k, rest)"
  shows "snd (scan p) = open_delim k @ rest"
proof -
  obtain done0 where "\<And>b. scan (p @ b) = (done0 @ fst (scan (after_frames p @ b)), snd (scan (after_frames p @ b)))"
    using scan_after_frames [of p] by blast
  from this [of "[]"] have "snd (scan p) = snd (scan (after_frames p))"
    by simp
  moreover have "split_on (close_delim k) rest = None"
    using assms by (rule after_frames_open)
  ultimately show ?thesis
    using remainder_of_unmatched_marker [OF assms] by simp
qed

text \<open>
  C1, as the claim states it, fails. Four streams, each delivered in chunks and as one
  chunk:

    \<^item> The text \<open>a\<close>, line feed, \<open>b\<close> in three chunks loses the line feed: a
      whitespace-only piece of text is \<open>Ignored\<close> (section 4.2), so the texts of the split
      run concatenate to \<open>ab\<close>.
    \<^item> A tool-event frame cut inside its opening delimiter is two pieces of text and no
      \<open>ToolEvent\<close>: only an opening delimiter that is found is held back (section 4.1).
    \<^item> A done envelope followed by the text \<open>x\<close> in the next chunk gives \<open>Done\<close> and then
      text, while the whole stream is one piece of text that is not JSON-looking.
    \<^item> A done envelope cut in two is two pieces of text and the \<open>Done\<close> event is lost.
      Here the classifier follows the sentence of section 4.1 by which plain-text and
      JSON-envelope segments are never deferred and trailing content with no open marker
      is a complete frame for that delivery.
\<close>

theorem fragmentation_changes_events:
  \<open>merge_text (events_of [''a'', [CHR 0x0A], ''b'']) = [TextDelta ''a'', Ignored, TextDelta ''b'']
   \<and> merge_text (events_of [concat [''a'', [CHR 0x0A], ''b'']]) = [TextDelta [CHR ''a'', CHR 0x0A, CHR ''b'']]
   \<and> merge_text (events_of [''__TOOL_'', ''EVENT__{"type":"tool_event","tool":"web_search","status":"started","timestamp":"t1"}__END_TOOL_EVENT__''])
       = [TextDelta ''__TOOL_EVENT__{"type":"tool_event","tool":"web_search","status":"started","timestamp":"t1"}__END_TOOL_EVENT__'']
   \<and> merge_text (events_of [concat [''__TOOL_'', ''EVENT__{"type":"tool_event","tool":"web_search","status":"started","timestamp":"t1"}__END_TOOL_EVENT__'']])
       = [ToolEvent \<lparr>tool = ''web_search'', status = ''started'', timestamp = ''t1'', message = None\<rparr>]
   \<and> merge_text (events_of [''{"type":"done"}'', ''x'']) = [Done None, TextDelta ''x'']
   \<and> merge_text (events_of [concat [''{"type":"done"}'', ''x'']]) = [TextDelta ''{"type":"done"}x'']
   \<and> merge_text (events_of [''{"type":'', ''"done"}'']) = [TextDelta ''{"type":"done"}'']
   \<and> merge_text (events_of [concat [''{"type":'', ''"done"}'']]) = [Done None]\<close>
  by (simp add: events_of_def classify_simps decode_simps parse_simps)

text \<open>
  C1, amended. Classify then parse over a stream delivered in chunks yields the
  ParsedEvent sequence of the stream delivered as one chunk, up to the merging of
  consecutive \<open>TextDelta\<close> events, and ends with the same remainder, for every split whose
  every cut leaves the frames whole (\<open>cut_ok\<close>): the cut falls at the edge of a frame,
  or inside a marked frame after its complete opening delimiter (anywhere in the payload
  or in the closing delimiter), or after carriage-return/space padding, or inside text
  such that no opening delimiter straddles the cut and the text on either side is plain
  and does not join to JSON-looking text. Moreover, when the stream so far ends inside a
  marked frame, the classifier is holding that frame back, from its opening delimiter on.
\<close>

theorem fragmentation_invariance_at_safe_cuts:
  "cuts_ok [] chunks \<Longrightarrow>
     merge_text (events_of chunks) = merge_text (events_of [concat chunks])
     \<and> snd (classify_all [] chunks) = snd (classify [] (concat chunks))
     \<and> (next_marker (after_frames (concat chunks)) = Some (pre, k, rest) \<longrightarrow>
          snd (classify_all [] chunks) = open_delim k @ rest)"
  using chunks_as_whole [of chunks] held_from_marker [of "concat chunks" pre k rest]
  by (simp add: events_of_def classify_def)


text \<open>
  Instances: a tool-event frame cut inside its payload and inside its closing delimiter;
  two whole tool-event frames, one per chunk; text cut in two ahead of a
  reasoning-replace frame; a stream that ends inside a reasoning-replace frame that
  was itself cut, where the classifier holds the frame from its opening delimiter on;
  and text cut after two spaces of padding.
\<close>

theorem fragmentation_invariance_at_safe_cuts_witness:
  \<open>cuts_ok []
     [''__TOOL_EVENT__{"type":"tool_event","tool":"web_search",'',
      ''"status":"started","timestamp":"t1"}__END_TOOL'',
      ''_EVENT__done'']
   \<and> merge_text (events_of
        [''__TOOL_EVENT__{"type":"tool_event","tool":"web_search",'',
         ''"status":"started","timestamp":"t1"}__END_TOOL'',
         ''_EVENT__done''])
     = merge_text (events_of
        [concat
          [''__TOOL_EVENT__{"type":"tool_event","tool":"web_search",'',
           ''"status":"started","timestamp":"t1"}__END_TOOL'',
           ''_EVENT__done'']])
   \<and> events_of
        [''__TOOL_EVENT__{"type":"tool_event","tool":"web_search",'',
         ''"status":"started","timestamp":"t1"}__END_TOOL'',
         ''_EVENT__done'']
     = [ToolEvent \<lparr>tool = ''web_search'', status = ''started'', timestamp = ''t1'', message = None\<rparr>,
        TextDelta ''done'']
   \<and> cuts_ok []
        [''__TOOL_EVENT__{"type":"tool_event","tool":"web_search","status":"started","timestamp":"t1"}__END_TOOL_EVENT__'',
         ''__TOOL_EVENT__{"type":"tool_event","tool":"web_search","status":"completed","timestamp":"t2"}__END_TOOL_EVENT__'']
   \<and> merge_text (events_of
        [''__TOOL_EVENT__{"type":"tool_event","tool":"web_search","status":"started","timestamp":"t1"}__END_TOOL_EVENT__'',
         ''__TOOL_EVENT__{"type":"tool_event","tool":"web_search","status":"completed","timestamp":"t2"}__END_TOOL_EVENT__''])
     = merge_text (events_of
        [concat
          [''__TOOL_EVENT__{"type":"tool_event","tool":"web_search","status":"started","timestamp":"t1"}__END_TOOL_EVENT__'',
           ''__TOOL_EVENT__{"type":"tool_event","tool":"web_search","status":"completed","timestamp":"t2"}__END_TOOL_EVENT__'']])
   \<and> cuts_ok [] [''Hello '', ''world__REASONING_REPLACE__Step 1__END_REASONING_REPLACE__'']
   \<and> merge_text (events_of [''Hello '', ''world__REASONING_REPLACE__Step 1__END_REASONING_REPLACE__''])
     = merge_text (events_of [concat [''Hello '', ''world__REASONING_REPLACE__Step 1__END_REASONING_REPLACE__'']])
   \<and> events_of [''Hello '', ''world__REASONING_REPLACE__Step 1__END_REASONING_REPLACE__'']
     = [TextDelta ''Hello '', TextDelta ''world'', ReasoningDelta ''Step 1'' True]
   \<and> events_of [concat [''Hello '', ''world__REASONING_REPLACE__Step 1__END_REASONING_REPLACE__'']]
     = [TextDelta ''Hello world'', ReasoningDelta ''Step 1'' True]
   \<and> cuts_ok [] [''Hello '', ''world__REASONING_REPLACE__Step'', '' 1'']
   \<and> next_marker (after_frames (concat [''Hello '', ''world__REASONING_REPLACE__Step'', '' 1'']))
       = Some (''Hello world'', ReasoningReplaceMarker, ''Step 1'')
   \<and> snd (classify_all [] [''Hello '', ''world__REASONING_REPLACE__Step'', '' 1''])
       = ''__REASONING_REPLACE__Step 1''
   \<and> cuts_ok [] [''  '', ''Hello'']
   \<and> deferred (after_frames ''  '')
   \<and> merge_text (events_of [''  '', ''Hello'']) = merge_text (events_of [concat [''  '', ''Hello'']])
   \<and> events_of [''  '', ''Hello''] = [TextDelta ''  Hello'']\<close>
proof -
  have split_frame: \<open>cuts_ok []
     [''__TOOL_EVENT__{"type":"tool_event","tool":"web_search",'',
      ''"status":"started","timestamp":"t1"}__END_TOOL'',
      ''_EVENT__done'']\<close>
    by (simp add: cut_simps classify_simps)
  have split_events: \<open>events_of
        [''__TOOL_EVENT__{"type":"tool_event","tool":"web_search",'',
         ''"status":"started","timestamp":"t1"}__END_TOOL'',
         ''_EVENT__done'']
     = [ToolEvent \<lparr>tool = ''web_search'', status = ''started'', timestamp = ''t1'', message = None\<rparr>,
        TextDelta ''done'']\<close>
    by (simp add: events_of_def classify_simps decode_simps parse_simps)
  have whole_frames: \<open>cuts_ok []
        [''__TOOL_EVENT__{"type":"tool_event","tool":"web_search","status":"started","timestamp":"t1"}__END_TOOL_EVENT__'',
         ''__TOOL_EVENT__{"type":"tool_event","tool":"web_search","status":"completed","timestamp":"t2"}__END_TOOL_EVENT__'']\<close>
    by (simp add: cut_simps classify_simps)
  have text_split: \<open>cuts_ok [] [''Hello '', ''world__REASONING_REPLACE__Step 1__END_REASONING_REPLACE__'']\<close>
    by (simp add: cut_simps classify_simps)
  have text_events: \<open>events_of [''Hello '', ''world__REASONING_REPLACE__Step 1__END_REASONING_REPLACE__'']
     = [TextDelta ''Hello '', TextDelta ''world'', ReasoningDelta ''Step 1'' True]\<close>
    \<open>events_of [concat [''Hello '', ''world__REASONING_REPLACE__Step 1__END_REASONING_REPLACE__'']]
     = [TextDelta ''Hello world'', ReasoningDelta ''Step 1'' True]\<close>
    by (simp_all add: events_of_def classify_simps decode_simps parse_simps)
  have open_frame: \<open>cuts_ok [] [''Hello '', ''world__REASONING_REPLACE__Step'', '' 1'']\<close>
    by (simp add: cut_simps classify_simps)
  have open_marker: \<open>next_marker (after_frames (concat [''Hello '', ''world__REASONING_REPLACE__Step'', '' 1'']))
       = Some (''Hello world'', ReasoningReplaceMarker, ''Step 1'')\<close>
    by (simp add: cut_simps)
  have split_same: \<open>merge_text (events_of
        [''__TOOL_EVENT__{"type":"tool_event","tool":"web_search",'',
         ''"status":"started","timestamp":"t1"}__END_TOOL'',
         ''_EVENT__done''])
     = merge_text (events_of
        [concat
          [''__TOOL_EVENT__{"type":"tool_event","tool":"web_search",'',
           ''"status":"started","timestamp":"t1"}__END_TOOL'',
           ''_EVENT__done'']])\<close>
    using fragmentation_invariance_at_safe_cuts [OF split_frame] by blast
  have whole_same: \<open>merge_text (events_of
        [''__TOOL_EVENT__{"type":"tool_event","tool":"web_search","status":"started","timestamp":"t1"}__END_TOOL_EVENT__'',
         ''__TOOL_EVENT__{"type":"tool_event","tool":"web_search","status":"completed","timestamp":"t2"}__END_TOOL_EVENT__''])
     = merge_text (events_of
        [concat
          [''__TOOL_EVENT__{"type":"tool_event","tool":"web_search","status":"started","timestamp":"t1"}__END_TOOL_EVENT__'',
           ''__TOOL_EVENT__{"type":"tool_event","tool":"web_search","status":"completed","timestamp":"t2"}__END_TOOL_EVENT__'']])\<close>
    using fragmentation_invariance_at_safe_cuts [OF whole_frames] by blast
  have text_same: \<open>merge_text (events_of [''Hello '', ''world__REASONING_REPLACE__Step 1__END_REASONING_REPLACE__''])
     = merge_text (events_of [concat [''Hello '', ''world__REASONING_REPLACE__Step 1__END_REASONING_REPLACE__'']])\<close>
    using fragmentation_invariance_at_safe_cuts [OF text_split] by blast
  have open_held: \<open>snd (classify_all [] [''Hello '', ''world__REASONING_REPLACE__Step'', '' 1''])
       = ''__REASONING_REPLACE__Step 1''\<close>
  proof -
    have \<open>snd (classify_all [] [''Hello '', ''world__REASONING_REPLACE__Step'', '' 1''])
       = open_delim ReasoningReplaceMarker @ ''Step 1''\<close>
      using fragmentation_invariance_at_safe_cuts [OF open_frame] open_marker by blast
    then show ?thesis
      by (simp only: open_delim.simps append_Cons append_Nil)
  qed
  have padding: \<open>cuts_ok [] [''  '', ''Hello'']\<close> \<open>deferred (after_frames ''  '')\<close>
    by (simp_all add: cut_simps classify_simps)
  have padding_events: \<open>events_of [''  '', ''Hello''] = [TextDelta ''  Hello'']\<close>
    by (simp add: events_of_def classify_simps)
  have padding_same:
    \<open>merge_text (events_of [''  '', ''Hello'']) = merge_text (events_of [concat [''  '', ''Hello'']])\<close>
    using fragmentation_invariance_at_safe_cuts [OF padding(1)] by blast
  show ?thesis
    using split_frame split_same split_events whole_frames whole_same text_split text_same
      text_events open_frame open_marker open_held padding padding_events padding_same
    by blast
qed

section \<open>The precedence of the envelope rules\<close>

text \<open>
  C7. An envelope whose type is \<open>done\<close> parses to \<open>Done\<close> of its thread id, whatever else
  it holds. An envelope of any other type (or of none) that has an \<open>error\<close> parses to
  \<open>Error\<close> of it, and a live session that takes the error is terminal with that message
  and is not done. The stream \<open>{"type":"done","thread_id":"abc"}\<close> ends the session done
  with thread id \<open>abc\<close>; the stream \<open>{"error":"Rate limit exceeded"}\<close> ends it with the
  error \<open>Rate limit exceeded\<close>, not done.
\<close>

theorem envelope_precedence:
  \<open>(json_decode raw = Some obj \<longrightarrow> parse (JsonEnvelope raw) = parse_envelope obj)
   \<and> (jfield obj ''type'' = Some (JString ''done'') \<longrightarrow>
      parse_envelope obj = Done (jfield obj ''thread_id''))
   \<and> (jfield obj ''type'' \<noteq> Some (JString ''done'') \<longrightarrow> jfield obj ''error'' = Some e \<longrightarrow>
        parse_envelope obj = Error e)
   \<and> (terminal st = None \<longrightarrow>
        terminal (apply_event detect st (Error e)) = Some (BackendError e)
        \<and> \<not> is_done (apply_event detect st (Error e)))
   \<and> (terminal st = None \<longrightarrow> is_done (apply_event detect st (Done tid)))
   \<and> run_session detect [''{"type":"done","thread_id":"abc"}'']
       = initial_state\<lparr>terminal := Some Completed, threadId := Some (JString ''abc'')\<rparr>
   \<and> run_session detect [''{"error":"Rate limit exceeded"}'']
       = initial_state\<lparr>terminal := Some (BackendError (JString ''Rate limit exceeded''))\<rparr>
   \<and> \<not> is_done (run_session detect [''{"error":"Rate limit exceeded"}''])\<close>
proof -
  have done_run: \<open>run_session detect [''{"type":"done","thread_id":"abc"}'']
       = initial_state\<lparr>terminal := Some Completed, threadId := Some (JString ''abc'')\<rparr>\<close>
    by (simp add: run_session_def deliver_chunk_def initial_state_def classify_simps decode_simps
        parse_simps)
  have error_run: \<open>run_session detect [''{"error":"Rate limit exceeded"}'']
       = initial_state\<lparr>terminal := Some (BackendError (JString ''Rate limit exceeded''))\<rparr>\<close>
    by (simp add: run_session_def deliver_chunk_def initial_state_def classify_simps decode_simps
        parse_simps)
  have not_done: \<open>\<not> is_done (run_session detect [''{"error":"Rate limit exceeded"}''])\<close>
    by (simp add: error_run is_done_def initial_state_def)
  show ?thesis
    using done_run error_run not_done by (simp add: parse_envelope_def is_done_def)
qed

theorem envelope_precedence_witness:
  \<open>json_decode ''{"error":"late","type":"done","thread_id":"abc"}''
     = Some (JObject [(''error'', JString ''late''), (''type'', JString ''done''), (''thread_id'', JString ''abc'')])
   \<and> parse (JsonEnvelope ''{"error":"late","type":"done","thread_id":"abc"}'')
       = Done (Some (JString ''abc''))
   \<and> jfield (JObject [(''error'', JString ''late''), (''type'', JString ''done''), (''thread_id'', JString ''abc'')])
      ''type'' = Some (JString ''done'')
   \<and> parse_envelope (JObject [(''error'', JString ''late''), (''type'', JString ''done''), (''thread_id'', JString ''abc'')])
       = Done (Some (JString ''abc''))
   \<and> jfield (JObject [(''error'', JString ''Rate limit exceeded'')]) ''type'' \<noteq> Some (JString ''done'')
   \<and> jfield (JObject [(''error'', JString ''Rate limit exceeded'')]) ''error''
       = Some (JString ''Rate limit exceeded'')
   \<and> parse_envelope (JObject [(''error'', JString ''Rate limit exceeded'')])
       = Error (JString ''Rate limit exceeded'')
   \<and> terminal initial_state = None
   \<and> terminal (apply_event (\<lambda>transcript. NoPhase) initial_state (Error (JString ''Rate limit exceeded'')))
       = Some (BackendError (JString ''Rate limit exceeded''))
   \<and> \<not> is_done (apply_event (\<lambda>transcript. NoPhase) initial_state (Error (JString ''Rate limit exceeded'')))
   \<and> is_done (apply_event (\<lambda>transcript. NoPhase) initial_state (Done (Some (JString ''abc''))))\<close>
  using envelope_precedence
      [of \<open>''{"error":"late","type":"done","thread_id":"abc"}''\<close>
          "JObject [(''error'', JString ''late''), (''type'', JString ''done''), (''thread_id'', JString ''abc'')]"
          "JString ''late''" initial_state "\<lambda>transcript. NoPhase" "Some (JString ''abc'')"]
    envelope_precedence
      [of \<open>''{"error":"Rate limit exceeded"}''\<close>
          "JObject [(''error'', JString ''Rate limit exceeded'')]"
          "JString ''Rate limit exceeded''" initial_state "\<lambda>transcript. NoPhase" None]
  by (simp add: initial_state_def decode_simps)

end
